theory Spec2Isabelle
  imports Complex_Main "HOL-Library.Multiset" "HOL-Library.AList" "HOL-Library.Sublist"
begin

section \<open>JavaScript numbers\<close>

text \<open>
  The balancing engine of \<^verbatim>\<open>src/app.js\<close> (\<^verbatim>\<open>calculateBalances\<close>, lines 392-422, and
  \<^verbatim>\<open>resolveSettlements\<close>, lines 431-489) computes on JavaScript numbers. A number is
  modelled as a finite value, one of the two infinities, or NaN. Finite arithmetic is
  exact (a finite value is a \<^typ>\<open>real\<close>): the rounding error and the overflow of binary
  floating point are not part of the model, and the two zeros are one value. The special
  values follow IEEE 754 as JavaScript has it: NaN is absorbing, every comparison with NaN
  is false, \<open>x / 0\<close> is an infinity for \<open>x \<noteq> 0\<close> and NaN for \<open>x = 0\<close>, and
  \<open>\<infinity> - \<infinity>\<close> is NaN.
\<close>

datatype jsnum = Num real | PosInf | NegInf | NaN

fun js_neg :: "jsnum \<Rightarrow> jsnum" where
  "js_neg (Num a) = Num (- a)"
| "js_neg PosInf = NegInf"
| "js_neg NegInf = PosInf"
| "js_neg NaN = NaN"

fun js_add :: "jsnum \<Rightarrow> jsnum \<Rightarrow> jsnum" where
  "js_add NaN _ = NaN"
| "js_add _ NaN = NaN"
| "js_add (Num a) (Num b) = Num (a + b)"
| "js_add (Num a) PosInf = PosInf"
| "js_add (Num a) NegInf = NegInf"
| "js_add PosInf (Num b) = PosInf"
| "js_add NegInf (Num b) = NegInf"
| "js_add PosInf PosInf = PosInf"
| "js_add NegInf NegInf = NegInf"
| "js_add PosInf NegInf = NaN"
| "js_add NegInf PosInf = NaN"

definition js_sub :: "jsnum \<Rightarrow> jsnum \<Rightarrow> jsnum" where
  "js_sub a b = js_add a (js_neg b)"

text \<open>The sign of a number, for the infinite cases of \<open>*\<close> and \<open>/\<close>: zero counts as positive zero.\<close>

fun js_nonneg :: "jsnum \<Rightarrow> bool" where
  "js_nonneg (Num a) = (0 \<le> a)"
| "js_nonneg PosInf = True"
| "js_nonneg NegInf = False"
| "js_nonneg NaN = False"

fun js_mul :: "jsnum \<Rightarrow> jsnum \<Rightarrow> jsnum" where
  "js_mul NaN _ = NaN"
| "js_mul _ NaN = NaN"
| "js_mul (Num a) (Num b) = Num (a * b)"
| "js_mul (Num a) y = (if a = 0 then NaN else if 0 < a then y else js_neg y)"
| "js_mul x (Num b) = (if b = 0 then NaN else if 0 < b then x else js_neg x)"
| "js_mul x y = (if js_nonneg x = js_nonneg y then PosInf else NegInf)"

fun js_div :: "jsnum \<Rightarrow> jsnum \<Rightarrow> jsnum" where
  "js_div NaN _ = NaN"
| "js_div _ NaN = NaN"
| "js_div (Num a) (Num b) =
     (if b \<noteq> 0 then Num (a / b)
      else if a = 0 then NaN else if 0 < a then PosInf else NegInf)"
| "js_div (Num a) y = Num 0"
| "js_div x (Num b) = (if 0 \<le> b then x else js_neg x)"
| "js_div x y = NaN"

text \<open>\<^verbatim>\<open>a < b\<close> and \<^verbatim>\<open>a > b\<close>: false as soon as one side is NaN.\<close>

fun js_lt :: "jsnum \<Rightarrow> jsnum \<Rightarrow> bool" where
  "js_lt NaN _ = False"
| "js_lt _ NaN = False"
| "js_lt (Num a) (Num b) = (a < b)"
| "js_lt (Num a) PosInf = True"
| "js_lt (Num a) NegInf = False"
| "js_lt PosInf _ = False"
| "js_lt NegInf NegInf = False"
| "js_lt NegInf _ = True"

definition js_gt :: "jsnum \<Rightarrow> jsnum \<Rightarrow> bool" where
  "js_gt a b = js_lt b a"

text \<open>\<^verbatim>\<open>Math.min\<close>, \<^verbatim>\<open>Math.abs\<close> and \<^verbatim>\<open>Math.round\<close>. \<^verbatim>\<open>Math.round\<close> rounds to the nearest
  integer and a tie towards \<open>+\<infinity>\<close>: \<^verbatim>\<open>Math.round(2.5)\<close> is 3 and \<^verbatim>\<open>Math.round(-2.5)\<close> is -2.\<close>

fun js_min :: "jsnum \<Rightarrow> jsnum \<Rightarrow> jsnum" where
  "js_min NaN _ = NaN"
| "js_min _ NaN = NaN"
| "js_min a b = (if js_lt b a then b else a)"

fun js_abs :: "jsnum \<Rightarrow> jsnum" where
  "js_abs (Num a) = Num \<bar>a\<bar>"
| "js_abs PosInf = PosInf"
| "js_abs NegInf = PosInf"
| "js_abs NaN = NaN"

fun js_round :: "jsnum \<Rightarrow> jsnum" where
  "js_round (Num a) = Num (of_int \<lfloor>a + 1 / 2\<rfloor>)"
| "js_round x = x"

text \<open>\<^verbatim>\<open>Math.round(x * 100) / 100\<close>, written out twice in the source (lines 418 and 471).\<close>

definition round2 :: "jsnum \<Rightarrow> jsnum" where
  "round2 x = js_div (js_round (js_mul x (Num 100))) (Num 100)"

text \<open>The threshold \<^verbatim>\<open>0.01\<close> of the source.\<close>

definition eps :: real where
  "eps = 1 / 100"


section \<open>Data model\<close>

text \<open>
  Persons, expenses and trips as the application stores them (\<^verbatim>\<open>addPersonToTrip\<close>,
  \<^verbatim>\<open>addExpense\<close>, \<^verbatim>\<open>createTrip\<close>). Identifiers are strings. Field names carry a prefix
  where two objects of the source share a name.
\<close>

record person =
  person_id :: string
  person_name :: string

record expense =
  expense_id :: string
  title :: string
  amount :: jsnum
  paidBy :: string
  participants :: "string list"
  createdAt :: nat

record trip =
  trip_id :: string
  trip_name :: string
  budget :: "jsnum option"
  persons :: "person list"
  expenses :: "expense list"

text \<open>
  The \<^verbatim>\<open>balances\<close> object: its own properties in the order \<^verbatim>\<open>Object.keys\<close> enumerates
  them, which is the order of insertion (the identifiers are UUID strings as
  \<^verbatim>\<open>generateUUID\<close> makes them; names that are array indices would be enumerated first).
  Reading a property that does not exist gives \<^verbatim>\<open>undefined\<close>, which arithmetic converts
  to NaN (under a name that \<^verbatim>\<open>Object.prototype\<close> defines the value read is a function
  or an object, which \<^verbatim>\<open>-=\<close> converts to NaN and \<^verbatim>\<open>+=\<close> to a string that every later
  operation, the rounding pass at the latest, converts to NaN).
\<close>

type_synonym balances = "(string \<times> jsnum) list"

definition get_num :: "balances \<Rightarrow> string \<Rightarrow> jsnum" where
  "get_num b k = (case map_of b k of None \<Rightarrow> NaN | Some v \<Rightarrow> v)"


section \<open>calculateBalances\<close>

text \<open>
  The assignment \<^verbatim>\<open>balances[k] = v\<close>. Assigning to a property that exists keeps its place
  in the order, assigning to a new one appends it: this is \<^const>\<open>AList.update\<close>. The name
  \<^verbatim>\<open>__proto__\<close> is the exception: on an object that has no such property of its own the
  assignment reaches the setter that \<^verbatim>\<open>Object.prototype\<close> defines, which ignores a value
  that is not an object, so that no property is made.
\<close>

definition assign :: "balances \<Rightarrow> string \<Rightarrow> jsnum \<Rightarrow> balances" where
  "assign b k v = (if k = ''__proto__'' \<and> map_of b k = None then b else AList.update k v b)"

text \<open>\<^verbatim>\<open>balances[person.id] = 0\<close>\<close>

definition initBalance :: "balances \<Rightarrow> person \<Rightarrow> balances" where
  "initBalance b p = assign b (person_id p) (Num 0)"

text \<open>\<^verbatim>\<open>balances[expense.paidBy] += expense.amount\<close>\<close>

definition credit :: "balances \<Rightarrow> string \<Rightarrow> jsnum \<Rightarrow> balances" where
  "credit b k a = assign b k (js_add (get_num b k) a)"

text \<open>\<^verbatim>\<open>balances[participantId] -= split\<close>\<close>

definition debit :: "jsnum \<Rightarrow> balances \<Rightarrow> string \<Rightarrow> balances" where
  "debit split b k = assign b k (js_sub (get_num b k) split)"

text \<open>The body of \<^verbatim>\<open>trip.expenses.forEach\<close>.\<close>

definition processExpense :: "balances \<Rightarrow> expense \<Rightarrow> balances" where
  "processExpense b e =
     (let split = js_div (amount e) (Num (real (length (participants e))));
          b1 = credit b (paidBy e) (amount e)
      in foldl (debit split) b1 (participants e))"

text \<open>The balances before the final rounding pass.\<close>

definition rawBalances :: "trip \<Rightarrow> balances" where
  "rawBalances t = foldl processExpense (foldl initBalance [] (persons t)) (expenses t)"

text \<open>The rounding pass assigns to existing keys only, so it keeps the order of the keys.\<close>

definition roundAll :: "balances \<Rightarrow> balances" where
  "roundAll b = map (\<lambda>(k, v). (k, round2 v)) b"

text \<open>The argument is \<open>None\<close> for an absent trip (\<^verbatim>\<open>!trip\<close>).\<close>

definition calculateBalances :: "trip option \<Rightarrow> balances" where
  "calculateBalances t =
     (case t of
        None \<Rightarrow> []
      | Some tr \<Rightarrow> if persons tr = [] then [] else roundAll (rawBalances tr))"


section \<open>resolveSettlements\<close>

text \<open>The entries \<^verbatim>\<open>{id, amount}\<close> of the working lists, and the settlements
  \<^verbatim>\<open>{from, to, amount}\<close>.\<close>

record entry =
  entry_id :: string
  entry_amount :: jsnum

record settlement =
  s_from :: string
  s_to :: string
  s_amount :: jsnum

text \<open>The body of \<^verbatim>\<open>Object.keys(workingBalances).forEach\<close>, on the pair of lists
  \<^verbatim>\<open>(creditors, debtors)\<close>.\<close>

definition classify :: "entry list \<times> entry list \<Rightarrow> string \<times> jsnum \<Rightarrow> entry list \<times> entry list" where
  "classify cd kv =
     (let balance = snd kv in
      if js_gt balance (Num eps)
      then (fst cd @ [\<lparr>entry_id = fst kv, entry_amount = balance\<rparr>], snd cd)
      else if js_lt balance (Num (- eps))
      then (fst cd, snd cd @ [\<lparr>entry_id = fst kv, entry_amount = js_abs balance\<rparr>])
      else cd)"

text \<open>
  \<^verbatim>\<open>xs.sort((a, b) => b.amount - a.amount)\<close>. The sort of JavaScript is stable, and a
  comparator result that is zero or NaN leaves two elements in their order; the amounts in
  the working lists are never NaN, so the comparator is a consistent order and every stable
  sort gives the same list. The model is the stable insertion sort.
\<close>

definition cmp_desc :: "entry \<Rightarrow> entry \<Rightarrow> jsnum" where
  "cmp_desc a b = js_sub (entry_amount b) (entry_amount a)"

fun insert_desc :: "entry \<Rightarrow> entry list \<Rightarrow> entry list" where
  "insert_desc x [] = [x]"
| "insert_desc x (y # ys) =
     (if js_gt (cmp_desc x y) (Num 0) then y # insert_desc x ys else x # y # ys)"

fun sort_desc :: "entry list \<Rightarrow> entry list" where
  "sort_desc [] = []"
| "sort_desc (x # xs) = insert_desc x (sort_desc xs)"

text \<open>The state of the \<^verbatim>\<open>while\<close> loop.\<close>

record loop_state =
  creditors :: "entry list"
  debtors :: "entry list"
  settlements :: "settlement list"

text \<open>The loop condition \<^verbatim>\<open>creditors.length > 0 && debtors.length > 0\<close>.\<close>

definition running :: "loop_state \<Rightarrow> bool" where
  "running st = (creditors st \<noteq> [] \<and> debtors st \<noteq> [])"

text \<open>One iteration of the loop body; the state is returned as it is when the loop
  condition is false.\<close>

definition settleStep :: "loop_state \<Rightarrow> loop_state" where
  "settleStep st =
     (case (creditors st, debtors st) of
        (creditor # cr, debtor # dr) \<Rightarrow>
          (let payment = js_min (entry_amount creditor) (entry_amount debtor);
               ss = (if js_gt payment (Num eps)
                     then settlements st @
                          [\<lparr>s_from = entry_id debtor, s_to = entry_id creditor,
                            s_amount = round2 payment\<rparr>]
                     else settlements st);
               creditor' = creditor\<lparr>entry_amount := js_sub (entry_amount creditor) payment\<rparr>;
               debtor' = debtor\<lparr>entry_amount := js_sub (entry_amount debtor) payment\<rparr>
           in \<lparr>creditors = (if js_lt (entry_amount creditor') (Num eps) then cr
                            else creditor' # cr),
               debtors = (if js_lt (entry_amount debtor') (Num eps) then dr
                          else debtor' # dr),
               settlements = ss\<rparr>)
      | _ \<Rightarrow> st)"

text \<open>The loop: \<open>None\<close> is the loop that never ends.\<close>

partial_function (option) settleLoop :: "loop_state \<Rightarrow> settlement list option" where
  "settleLoop st = (if running st then settleLoop (settleStep st) else Some (settlements st))"

text \<open>The state the loop starts in.\<close>

definition initState :: "balances \<Rightarrow> loop_state" where
  "initState b =
     (let cd = foldl classify ([], []) b
      in \<lparr>creditors = sort_desc (fst cd), debtors = sort_desc (snd cd), settlements = []\<rparr>)"

text \<open>\<^verbatim>\<open>personMap\<close> is built from \<^verbatim>\<open>persons\<close> and never read; \<^verbatim>\<open>workingBalances\<close> is a
  copy of \<^verbatim>\<open>balances\<close> that is only read.\<close>

definition resolveSettlements :: "balances \<Rightarrow> person list \<Rightarrow> settlement list option" where
  "resolveSettlements b ps =
     (let personMap = map (\<lambda>p. (person_id p, person_name p)) ps;
          workingBalances = b
      in settleLoop (initState workingBalances))"


section \<open>resolveSettlements on the store\<close>

text \<open>
  The objects and arrays the function reads and writes, at their addresses. A store holds
  the objects with number-valued properties (\<^verbatim>\<open>balances\<close>, \<^verbatim>\<open>workingBalances\<close>), the
  person objects, the objects with string-valued properties (\<^verbatim>\<open>personMap\<close>), the entries
  \<^verbatim>\<open>{id, amount}\<close>, the settlements \<^verbatim>\<open>{from, to, amount}\<close>, and the arrays, whose elements
  are references (\<^verbatim>\<open>persons\<close>, \<^verbatim>\<open>creditors\<close>, \<^verbatim>\<open>debtors\<close>, \<^verbatim>\<open>settlements\<close>). A reference
  is the index of its object in the list of the objects of its kind; a new object is
  appended. Numbers and strings are values: they are copied, not referred to.
\<close>

type_synonym ref = nat

record store =
  number_objects :: "balances list"
  person_objects :: "person list"
  string_objects :: "(string \<times> string) list list"
  entry_objects :: "entry list"
  settlement_objects :: "settlement list"
  arrays :: "ref list list"

text \<open>\<^verbatim>\<open>[]\<close>, \<^verbatim>\<open>xs.push(x)\<close> and \<^verbatim>\<open>xs.shift()\<close>.\<close>

definition new_array :: "store \<Rightarrow> store \<times> ref" where
  "new_array h = (h\<lparr>arrays := arrays h @ [[]]\<rparr>, length (arrays h))"

definition push :: "ref \<Rightarrow> ref \<Rightarrow> store \<Rightarrow> store" where
  "push xs x h = h\<lparr>arrays := (arrays h)[xs := arrays h ! xs @ [x]]\<rparr>"

definition shift :: "ref \<Rightarrow> store \<Rightarrow> store" where
  "shift xs h = h\<lparr>arrays := (arrays h)[xs := tl (arrays h ! xs)]\<rparr>"

text \<open>\<^verbatim>\<open>personMap = {}\<close> and \<^verbatim>\<open>personMap[person.id] = person.name\<close>, for the person object
  that \<open>person\<close> refers to. The assignment to \<^verbatim>\<open>__proto__\<close> of an object that has no
  such property of its own calls the setter of \<^verbatim>\<open>Object.prototype\<close>, which ignores a
  string.\<close>

definition new_string_object :: "store \<Rightarrow> store \<times> ref" where
  "new_string_object h = (h\<lparr>string_objects := string_objects h @ [[]]\<rparr>, length (string_objects h))"

definition set_name :: "ref \<Rightarrow> store \<Rightarrow> ref \<Rightarrow> store" where
  "set_name personMap h person =
     (let k = person_id (person_objects h ! person);
          v = person_name (person_objects h ! person);
          m = string_objects h ! personMap
      in if k = ''__proto__'' \<and> map_of m k = None then h
         else h\<lparr>string_objects := (string_objects h)[personMap := AList.update k v m]\<rparr>)"

text \<open>\<^verbatim>\<open>{ ...balances }\<close>: a new object with the properties of \<^verbatim>\<open>balances\<close>, in their
  order.\<close>

definition copy_number_object :: "ref \<Rightarrow> store \<Rightarrow> store \<times> ref" where
  "copy_number_object balances_r h =
     (h\<lparr>number_objects := number_objects h @ [number_objects h ! balances_r]\<rparr>,
      length (number_objects h))"

text \<open>The object literals \<^verbatim>\<open>{ id: personId, amount: ... }\<close> and
  \<^verbatim>\<open>{ from: ..., to: ..., amount: ... }\<close>.\<close>

definition new_entry :: "entry \<Rightarrow> store \<Rightarrow> store \<times> ref" where
  "new_entry e h = (h\<lparr>entry_objects := entry_objects h @ [e]\<rparr>, length (entry_objects h))"

definition new_settlement :: "settlement \<Rightarrow> store \<Rightarrow> store \<times> ref" where
  "new_settlement s h =
     (h\<lparr>settlement_objects := settlement_objects h @ [s]\<rparr>, length (settlement_objects h))"

text \<open>The body of \<^verbatim>\<open>Object.keys(workingBalances).forEach\<close>: the balance is read from
  \<^verbatim>\<open>workingBalances\<close> under the key.\<close>

definition classify_store :: "ref \<Rightarrow> ref \<Rightarrow> ref \<Rightarrow> store \<Rightarrow> string \<Rightarrow> store" where
  "classify_store workingBalances creditors_r debtors_r h personId =
     (let balance = get_num (number_objects h ! workingBalances) personId in
      if js_gt balance (Num eps)
      then (let (h1, e) = new_entry \<lparr>entry_id = personId, entry_amount = balance\<rparr> h
            in push creditors_r e h1)
      else if js_lt balance (Num (- eps))
      then (let (h1, e) = new_entry \<lparr>entry_id = personId, entry_amount = js_abs balance\<rparr> h
            in push debtors_r e h1)
      else h)"

text \<open>\<^verbatim>\<open>xs.sort((a, b) => b.amount - a.amount)\<close> sorts the array in place; the comparator
  reads the amounts of the entries its elements refer to.\<close>

fun insert_ref :: "store \<Rightarrow> ref \<Rightarrow> ref list \<Rightarrow> ref list" where
  "insert_ref h x [] = [x]"
| "insert_ref h x (y # ys) =
     (if js_gt (cmp_desc (entry_objects h ! x) (entry_objects h ! y)) (Num 0)
      then y # insert_ref h x ys else x # y # ys)"

fun sort_refs :: "store \<Rightarrow> ref list \<Rightarrow> ref list" where
  "sort_refs h [] = []"
| "sort_refs h (x # xs) = insert_ref h x (sort_refs h xs)"

definition sort_array :: "ref \<Rightarrow> store \<Rightarrow> store" where
  "sort_array xs h = h\<lparr>arrays := (arrays h)[xs := sort_refs h (arrays h ! xs)]\<rparr>"

text \<open>\<^verbatim>\<open>entry.amount -= payment\<close>, for the entry object that \<open>e\<close> refers to.\<close>

definition sub_amount :: "ref \<Rightarrow> jsnum \<Rightarrow> store \<Rightarrow> store" where
  "sub_amount e payment h =
     h\<lparr>entry_objects := (entry_objects h)[e :=
         (entry_objects h ! e)\<lparr>entry_amount := js_sub (entry_amount (entry_objects h ! e)) payment\<rparr>]\<rparr>"

text \<open>The loop condition and the loop body. \<^verbatim>\<open>creditor\<close> and \<^verbatim>\<open>debtor\<close> are references
  to the entries at index 0: the two assignments write to the objects in the arrays.\<close>

definition running_store :: "ref \<Rightarrow> ref \<Rightarrow> store \<Rightarrow> bool" where
  "running_store creditors_r debtors_r h = (arrays h ! creditors_r \<noteq> [] \<and> arrays h ! debtors_r \<noteq> [])"

definition settleStep_store :: "ref \<Rightarrow> ref \<Rightarrow> ref \<Rightarrow> store \<Rightarrow> store" where
  "settleStep_store settlements_r creditors_r debtors_r h =
     (let creditor = hd (arrays h ! creditors_r);
          debtor = hd (arrays h ! debtors_r);
          payment = js_min (entry_amount (entry_objects h ! creditor))
                           (entry_amount (entry_objects h ! debtor));
          h1 = (if js_gt payment (Num eps)
                then (let (h', s) = new_settlement
                            \<lparr>s_from = entry_id (entry_objects h ! debtor),
                             s_to = entry_id (entry_objects h ! creditor),
                             s_amount = round2 payment\<rparr> h
                      in push settlements_r s h')
                else h);
          h2 = sub_amount creditor payment h1;
          h3 = sub_amount debtor payment h2;
          h4 = (if js_lt (entry_amount (entry_objects h3 ! creditor)) (Num eps)
                then shift creditors_r h3 else h3)
      in if js_lt (entry_amount (entry_objects h4 ! debtor)) (Num eps)
         then shift debtors_r h4 else h4)"

partial_function (option) settleLoop_store :: "ref \<Rightarrow> ref \<Rightarrow> ref \<Rightarrow> store \<Rightarrow> store option" where
  "settleLoop_store settlements_r creditors_r debtors_r h =
     (if running_store creditors_r debtors_r h
      then settleLoop_store settlements_r creditors_r debtors_r
             (settleStep_store settlements_r creditors_r debtors_r h)
      else Some h)"

text \<open>
  The function, from the store it is called in and the references it is given, to the
  store it leaves and the reference it returns (\<open>None\<close>: the loop never ends).
\<close>

definition resolveSettlements_store :: "store \<Rightarrow> ref \<Rightarrow> ref \<Rightarrow> (store \<times> ref) option" where
  "resolveSettlements_store h balances_r persons_r =
     (let (h1, settlements_r) = new_array h;
          (h2, personMap) = new_string_object h1;
          h3 = foldl (set_name personMap) h2 (arrays h2 ! persons_r);
          (h4, workingBalances) = copy_number_object balances_r h3;
          (h5, creditors_r) = new_array h4;
          (h6, debtors_r) = new_array h5;
          h7 = foldl (classify_store workingBalances creditors_r debtors_r) h6
                 (map fst (number_objects h6 ! workingBalances));
          h8 = sort_array creditors_r h7;
          h9 = sort_array debtors_r h8
      in map_option (\<lambda>h'. (h', settlements_r)) (settleLoop_store settlements_r creditors_r debtors_r h9))"

text \<open>What a reference to a settlements array, to a balances object and to a persons array
  stands for in a store.\<close>

definition transfers :: "store \<Rightarrow> ref \<Rightarrow> settlement list" where
  "transfers h r = map (\<lambda>s. settlement_objects h ! s) (arrays h ! r)"

definition persons_at :: "store \<Rightarrow> ref \<Rightarrow> person list" where
  "persons_at h r = map (\<lambda>p. person_objects h ! p) (arrays h ! r)"

text \<open>
  A store in which the references \<open>balances_r\<close> and \<open>persons_r\<close> can be passed: they refer to
  an object and an array of the store, the elements of the array refer to person objects
  of the store, and the keys of the object are distinct.
\<close>

definition valid_args :: "store \<Rightarrow> ref \<Rightarrow> ref \<Rightarrow> bool" where
  "valid_args h balances_r persons_r =
     (balances_r < length (number_objects h) \<and> persons_r < length (arrays h)
      \<and> (\<forall>p \<in> set (arrays h ! persons_r). p < length (person_objects h))
      \<and> distinct (map fst (number_objects h ! balances_r)))"

text \<open>A store that extends another: every object and every array of \<open>h\<close> is in \<open>h'\<close> at
  its address, as it is in \<open>h\<close>.\<close>

definition extends :: "store \<Rightarrow> store \<Rightarrow> bool" where
  "extends h h' =
     (prefix (number_objects h) (number_objects h') \<and> prefix (person_objects h) (person_objects h')
      \<and> prefix (string_objects h) (string_objects h') \<and> prefix (entry_objects h) (entry_objects h')
      \<and> prefix (settlement_objects h) (settlement_objects h') \<and> prefix (arrays h) (arrays h'))"


section \<open>Vocabulary of the properties\<close>

text \<open>\<^verbatim>\<open>a <= b\<close>, false as soon as one side is NaN.\<close>

fun js_le :: "jsnum \<Rightarrow> jsnum \<Rightarrow> bool" where
  "js_le NaN _ = False"
| "js_le _ NaN = False"
| "js_le a b = (a = b \<or> js_lt a b)"

text \<open>A finite number: neither NaN nor an infinity.\<close>

fun is_fin :: "jsnum \<Rightarrow> bool" where
  "is_fin (Num a) = True"
| "is_fin _ = False"

text \<open>Working lists and loop states whose amounts are all finite, and balances none of
  which is an infinity (NaN is allowed: the classification skips it).\<close>

definition fin_entries :: "entry list \<Rightarrow> bool" where
  "fin_entries es = (\<forall>e \<in> set es. is_fin (entry_amount e))"

definition fin_state :: "loop_state \<Rightarrow> bool" where
  "fin_state st = (fin_entries (creditors st) \<and> fin_entries (debtors st))"

definition no_infinity :: "balances \<Rightarrow> bool" where
  "no_infinity b = (\<forall>kv \<in> set b. snd kv \<noteq> PosInf \<and> snd kv \<noteq> NegInf)"

text \<open>
  In a loop state whose lists are both non-empty: the payment the next iteration makes,
  and whether it leaves the creditor, or the debtor, at index 0 with a remaining amount
  below the threshold.
\<close>

definition payment_of :: "loop_state \<Rightarrow> jsnum" where
  "payment_of st = js_min (entry_amount (hd (creditors st))) (entry_amount (hd (debtors st)))"

definition creditor_settled :: "loop_state \<Rightarrow> bool" where
  "creditor_settled st =
     js_lt (js_sub (entry_amount (hd (creditors st))) (payment_of st)) (Num eps)"

definition debtor_settled :: "loop_state \<Rightarrow> bool" where
  "debtor_settled st =
     js_lt (js_sub (entry_amount (hd (debtors st))) (payment_of st)) (Num eps)"

text \<open>The loop invariant behind \<open>from \<noteq> to\<close>: the creditors' identifiers stay in \<open>C\<close>,
  the debtors' in \<open>D\<close>, and every settlement goes from \<open>D\<close> to \<open>C\<close>.\<close>

definition parties_ok :: "string set \<Rightarrow> string set \<Rightarrow> loop_state \<Rightarrow> bool" where
  "parties_ok C D st =
     (entry_id ` set (creditors st) \<subseteq> C \<and> entry_id ` set (debtors st) \<subseteq> D \<and>
      (\<forall>s \<in> set (settlements st). s_from s \<in> D \<and> s_to s \<in> C))"

text \<open>A working list in descending order of amount: no entry is smaller than a later one.\<close>

definition desc_sorted :: "entry list \<Rightarrow> bool" where
  "desc_sorted es = sorted_wrt (\<lambda>x y. \<not> js_lt (entry_amount x) (entry_amount y)) es"

text \<open>The identifiers of the persons of a trip, and the identifiers an expense names.\<close>

definition person_ids :: "trip \<Rightarrow> string set" where
  "person_ids t = person_id ` set (persons t)"

definition touches :: "expense \<Rightarrow> string \<Rightarrow> bool" where
  "touches e k = (paidBy e = k \<or> k \<in> set (participants e))"

text \<open>A property that is not there (\<^verbatim>\<open>undefined\<close>) or holds NaN.\<close>

definition nan_or_absent :: "balances \<Rightarrow> string \<Rightarrow> bool" where
  "nan_or_absent b k = (map_of b k = None \<or> map_of b k = Some NaN)"

text \<open>The value of a finite number.\<close>

fun the_real :: "jsnum \<Rightarrow> real" where
  "the_real (Num a) = a"
| "the_real _ = 0"

text \<open>
  The invariants of the data model that the engine trusts: every amount is a finite number
  and every identifier of an expense is the identifier of a person of the trip
  (\<open>sound_trip\<close>); and, with them, no participants list is empty (\<open>valid_trip\<close>).
\<close>

definition sound_trip :: "trip \<Rightarrow> bool" where
  "sound_trip t =
     (\<forall>e \<in> set (expenses t).
        is_fin (amount e) \<and> paidBy e \<in> person_ids t \<and> set (participants e) \<subseteq> person_ids t)"

definition valid_trip :: "trip \<Rightarrow> bool" where
  "valid_trip t = (sound_trip t \<and> (\<forall>e \<in> set (expenses t). participants e \<noteq> []))"

text \<open>
  What one expense adds to the balance of \<open>k\<close>: the full amount when \<open>k\<close> paid, minus
  the split once for each time \<open>k\<close> is listed in the participants; for an empty list
  nothing is subtracted. The net balance is the sum over the expenses.
\<close>

definition share :: "expense \<Rightarrow> string \<Rightarrow> real" where
  "share e k =
     (if paidBy e = k then the_real (amount e) else 0)
     - (if participants e = [] then 0
        else real (count_list (participants e) k)
               * (the_real (amount e) / real (length (participants e))))"

definition net :: "trip \<Rightarrow> string \<Rightarrow> real" where
  "net t k = (\<Sum>e\<leftarrow>expenses t. share e k)"

text \<open>A balances object whose values are all finite.\<close>

definition fin_keys :: "balances \<Rightarrow> bool" where
  "fin_keys b = (\<forall>k \<in> set (map fst b). is_fin (get_num b k))"

text \<open>
  The sum of the values, as the self-test of the source takes it
  (\<^verbatim>\<open>Object.values(balances).reduce((a, b) => a + b, 0)\<close>, lines 821 and 2207), and
  \<open>within \<epsilon> of 0\<close>.
\<close>

definition js_sum :: "balances \<Rightarrow> jsnum" where
  "js_sum b = foldl js_add (Num 0) (map snd b)"

definition within_eps :: "jsnum \<Rightarrow> bool" where
  "within_eps v = (case v of Num r \<Rightarrow> \<bar>r\<bar> \<le> eps | _ \<Rightarrow> False)"

text \<open>
  Three ways to round to the nearest integer: a tie goes up (\<^verbatim>\<open>Math.round\<close>), away from
  zero, or to the even neighbour.
\<close>

definition round_half_up :: "real \<Rightarrow> int" where
  "round_half_up x = \<lfloor>x + 1 / 2\<rfloor>"

definition round_half_away :: "real \<Rightarrow> int" where
  "round_half_away x = (if 0 \<le> x then \<lfloor>x + 1 / 2\<rfloor> else \<lceil>x - 1 / 2\<rceil>)"

definition round_half_even :: "real \<Rightarrow> int" where
  "round_half_even x =
     (let f = \<lfloor>x\<rfloor>; d = x - of_int f
      in if d < 1 / 2 then f else if 1 / 2 < d then f + 1 else if even f then f else f + 1)"

text \<open>
  The balances as the specification words them (section 4.1), for a rounding \<open>rnd\<close>:
  every person of the trip starts at 0, each expense credits its full amount to the payer
  and debits \<open>amount / |participants|\<close> from each participant, and the result is rounded
  at scale 100. A mapping from the identifiers of the persons.
\<close>

definition specBalances :: "(real \<Rightarrow> int) \<Rightarrow> trip \<Rightarrow> string \<Rightarrow> jsnum option" where
  "specBalances rnd t k =
     (if k \<in> person_ids t then Some (Num (of_int (rnd (net t k * 100)) / 100)) else None)"


section \<open>Example data\<close>

text \<open>Persons, expenses and trips for the concrete inputs below; the fields the engine does
  not read get fixed values.\<close>

definition mk_person :: "string \<Rightarrow> person" where
  "mk_person k = \<lparr>person_id = k, person_name = k\<rparr>"

definition mk_expense :: "real \<Rightarrow> string \<Rightarrow> string list \<Rightarrow> expense" where
  "mk_expense a p ks =
     \<lparr>expense_id = ''e'', title = ''Expense'', amount = Num a, paidBy = p, participants = ks,
      createdAt = 0\<rparr>"

definition mk_trip :: "string list \<Rightarrow> expense list \<Rightarrow> trip" where
  "mk_trip ks es =
     \<lparr>trip_id = ''t'', trip_name = ''Trip'', budget = None, persons = map mk_person ks,
      expenses = es\<rparr>"





section \<open>Vocabulary of the settlement of balances\<close>

text \<open>
  Applying a settlement to the balances. As claim C2 words it, the amount is subtracted
  from the balance of \<^verbatim>\<open>from\<close> and added to the balance of \<^verbatim>\<open>to\<close>; as a payment, the
  debtor \<^verbatim>\<open>from\<close> pays the creditor \<^verbatim>\<open>to\<close>, so the amount is added to the (negative)
  balance of \<^verbatim>\<open>from\<close> and subtracted from the (positive) balance of \<^verbatim>\<open>to\<close>.
\<close>

definition apply_as_stated :: "balances \<Rightarrow> settlement \<Rightarrow> balances" where
  "apply_as_stated b s = credit (debit (s_amount s) b (s_from s)) (s_to s) (s_amount s)"

definition apply_payment :: "balances \<Rightarrow> settlement \<Rightarrow> balances" where
  "apply_payment b s = debit (s_amount s) (credit b (s_from s) (s_amount s)) (s_to s)"

definition all_within_eps :: "balances \<Rightarrow> bool" where
  "all_within_eps b = (\<forall>kv \<in> set b. within_eps (snd kv))"

text \<open>A whole number of cents; balances none of which is exactly one cent, up or down.\<close>

definition whole_cents :: "jsnum \<Rightarrow> bool" where
  "whole_cents v = (\<exists>m::int. v = Num (of_int m / 100))"

definition no_single_cent :: "balances \<Rightarrow> bool" where
  "no_single_cent b = (\<forall>kv \<in> set b. snd kv \<noteq> Num (1 / 100) \<and> snd kv \<noteq> Num (- (1 / 100)))"

text \<open>Working entries of at least two cents each; the settlement by which the debtor \<open>d\<close> pays
  its whole amount to the creditor \<open>c\<close>, and the one by which \<open>d\<close> pays \<open>c\<close> the
  whole amount of \<open>c\<close>; the total of a working list.\<close>

definition cent_entries :: "entry list \<Rightarrow> bool" where
  "cent_entries es = (\<forall>e \<in> set es. \<exists>m::int. 2 \<le> m \<and> entry_amount e = Num (of_int m / 100))"

definition pay :: "entry \<Rightarrow> entry \<Rightarrow> settlement" where
  "pay c d = \<lparr>s_from = entry_id d, s_to = entry_id c, s_amount = entry_amount d\<rparr>"

definition receive :: "entry \<Rightarrow> entry \<Rightarrow> settlement" where
  "receive d c = \<lparr>s_from = entry_id d, s_to = entry_id c, s_amount = entry_amount c\<rparr>"

definition total :: "entry list \<Rightarrow> real" where
  "total es = (\<Sum>e\<leftarrow>es. the_real (entry_amount e))"

text \<open>The two working lists as the classification builds them, before they are sorted, and
  the part of a balance that is a credit or a debt.\<close>

definition creditor_entries :: "balances \<Rightarrow> entry list" where
  "creditor_entries b =
     map (\<lambda>kv. \<lparr>entry_id = fst kv, entry_amount = snd kv\<rparr>)
       (filter (\<lambda>kv. js_gt (snd kv) (Num eps)) b)"

definition debtor_entries :: "balances \<Rightarrow> entry list" where
  "debtor_entries b =
     map (\<lambda>kv. \<lparr>entry_id = fst kv, entry_amount = js_abs (snd kv)\<rparr>)
       (filter (\<lambda>kv. js_lt (snd kv) (Num (- eps))) b)"

definition cpart :: "string \<times> jsnum \<Rightarrow> real" where
  "cpart kv = (if js_gt (snd kv) (Num eps) then the_real (snd kv) else 0)"

definition dpart :: "string \<times> jsnum \<Rightarrow> real" where
  "dpart kv = (if js_lt (snd kv) (Num (- eps)) then the_real (js_abs (snd kv)) else 0)"

section \<open>Vocabulary of the store\<close>

text \<open>
  The state of the loop that a store holds, for the references \<open>sr\<close>, \<open>cr\<close> and \<open>dr\<close> to
  the arrays \<^verbatim>\<open>settlements\<close>, \<^verbatim>\<open>creditors\<close> and \<^verbatim>\<open>debtors\<close>; and the invariant of the
  loop on the store: the store extends the store \<open>h0\<close> of the call, the three arrays are
  three arrays made during the call, and the elements of the two working arrays refer to
  entries made during the call, no two of them to the same entry.
\<close>

definition loop_state_of :: "ref \<Rightarrow> ref \<Rightarrow> ref \<Rightarrow> store \<Rightarrow> loop_state" where
  "loop_state_of sr cr dr h =
     \<lparr>creditors = map (\<lambda>e. entry_objects h ! e) (arrays h ! cr),
      debtors = map (\<lambda>e. entry_objects h ! e) (arrays h ! dr),
      settlements = transfers h sr\<rparr>"

definition loop_refs_ok :: "store \<Rightarrow> ref \<Rightarrow> ref \<Rightarrow> ref \<Rightarrow> store \<Rightarrow> bool" where
  "loop_refs_ok h0 sr cr dr h =
     (extends h0 h
      \<and> length (arrays h0) \<le> sr \<and> length (arrays h0) \<le> cr \<and> length (arrays h0) \<le> dr
      \<and> sr < length (arrays h) \<and> cr < length (arrays h) \<and> dr < length (arrays h)
      \<and> sr \<noteq> cr \<and> sr \<noteq> dr \<and> cr \<noteq> dr
      \<and> distinct (arrays h ! cr @ arrays h ! dr)
      \<and> (\<forall>e \<in> set (arrays h ! cr @ arrays h ! dr).
            length (entry_objects h0) \<le> e \<and> e < length (entry_objects h))
      \<and> (\<forall>s \<in> set (arrays h ! sr). s < length (settlement_objects h)))"

text \<open>A store for the concrete inputs below: the balances \<^verbatim>\<open>{a: 10, c: -7}\<close> at reference 0
  and the array of the two persons a and c at reference 0.\<close>

definition example_store :: store where
  "example_store =
     \<lparr>number_objects = [[(''a'', Num 10), (''c'', Num (- 7))]],
      person_objects = [mk_person ''a'', mk_person ''c''],
      string_objects = [],
      entry_objects = [],
      settlement_objects = [],
      arrays = [[0, 1]]\<rparr>"


section \<open>The loop as iteration of its body\<close>

lemma settleStep_idle: "\<not> running st \<Longrightarrow> settleStep st = st"
  by (auto simp: running_def settleStep_def split: list.splits)

lemma settleLoop_iterates:
  assumes "settleLoop st = Some ss"
  shows "\<exists>n. \<not> running ((settleStep ^^ n) st) \<and> ss = settlements ((settleStep ^^ n) st)"
proof (rule settleLoop.raw_induct [OF _ assms])
  fix loop :: "loop_state \<Rightarrow> settlement list option" and s r
  assume IH: "\<And>x y. loop x = Some y \<Longrightarrow>
    \<exists>n. \<not> running ((settleStep ^^ n) x) \<and> y = settlements ((settleStep ^^ n) x)"
  assume eq: "(if running s then loop (settleStep s) else Some (settlements s)) = Some r"
  show "\<exists>n. \<not> running ((settleStep ^^ n) s) \<and> r = settlements ((settleStep ^^ n) s)"
  proof (cases "running s")
    case True
    with eq have "loop (settleStep s) = Some r" by simp
    from IH [OF this] obtain n where
      "\<not> running ((settleStep ^^ n) (settleStep s))"
      "r = settlements ((settleStep ^^ n) (settleStep s))" by blast
    then have "\<not> running ((settleStep ^^ Suc n) s) \<and> r = settlements ((settleStep ^^ Suc n) s)"
      by (simp add: funpow_swap1)
    then show ?thesis by blast
  next
    case False
    with eq have "r = settlements s" by simp
    with False have "\<not> running ((settleStep ^^ 0) s) \<and> r = settlements ((settleStep ^^ 0) s)"
      by simp
    then show ?thesis by blast
  qed
qed

lemma settleLoop_returns:
  "\<not> running ((settleStep ^^ n) st) \<Longrightarrow> settleLoop st = Some (settlements ((settleStep ^^ n) st))"
proof (induction n arbitrary: st)
  case 0
  then show ?case by (simp add: settleLoop.simps)
next
  case (Suc n)
  show ?case
  proof (cases "running st")
    case True
    from Suc.prems have "\<not> running ((settleStep ^^ n) (settleStep st))"
      by (simp add: funpow_swap1)
    from Suc.IH[OF this] True show ?thesis
      by (subst settleLoop.simps) (simp add: funpow_swap1)
  next
    case False
    have "(settleStep ^^ k) st = st" for k
      by (induction k) (simp_all add: settleStep_idle False)
    with False show ?thesis by (simp add: settleLoop.simps settleStep_idle)
  qed
qed

lemma funpow_invariant:
  assumes "I st" and "\<And>s. I s \<Longrightarrow> I (settleStep s)"
  shows "I ((settleStep ^^ n) st)"
  using assms by (induction n) simp_all

lemma settleStep_running:
  assumes "creditors st = c # cr" and "debtors st = d # dr"
  shows "settleStep st =
    \<lparr>creditors =
       (if js_lt (js_sub (entry_amount c) (js_min (entry_amount c) (entry_amount d))) (Num eps)
        then cr
        else c\<lparr>entry_amount := js_sub (entry_amount c) (js_min (entry_amount c) (entry_amount d))\<rparr> # cr),
     debtors =
       (if js_lt (js_sub (entry_amount d) (js_min (entry_amount c) (entry_amount d))) (Num eps)
        then dr
        else d\<lparr>entry_amount := js_sub (entry_amount d) (js_min (entry_amount c) (entry_amount d))\<rparr> # dr),
     settlements =
       (if js_gt (js_min (entry_amount c) (entry_amount d)) (Num eps)
        then settlements st @
             [\<lparr>s_from = entry_id d, s_to = entry_id c,
               s_amount = round2 (js_min (entry_amount c) (entry_amount d))\<rparr>]
        else settlements st)\<rparr>"
  using assms by (simp add: settleStep_def Let_def)

lemma initState_settlements: "settlements (initState b) = []"
  by (simp add: initState_def Let_def)

section \<open>Rounding and the threshold\<close>

lemma round2_Num: "round2 (Num r) = Num (of_int \<lfloor>r * 100 + 1 / 2\<rfloor> / 100)"
  by (simp add: round2_def)

lemma round2_ge_eps:
  assumes "js_gt p (Num eps)"
  shows "js_le (Num eps) (round2 p)"
proof (cases p)
  case (Num r)
  with assms have "1 / 100 < r" by (simp add: js_gt_def eps_def)
  then have "1 \<le> \<lfloor>r * 100 + 1 / 2\<rfloor>" by linarith
  then have "(1::real) \<le> of_int \<lfloor>r * 100 + 1 / 2\<rfloor>" by linarith
  then have "eps \<le> of_int \<lfloor>r * 100 + 1 / 2\<rfloor> / 100" by (simp add: eps_def)
  with Num show ?thesis by (auto simp: round2_Num)
next
  case PosInf
  then show ?thesis by (simp add: round2_def)
next
  case NegInf
  with assms show ?thesis by (simp add: js_gt_def)
next
  case NaN
  with assms show ?thesis by (simp add: js_gt_def)
qed

lemma settleStep_amounts:
  assumes "\<forall>s \<in> set (settlements st). js_le (Num eps) (s_amount s)"
  shows "\<forall>s \<in> set (settlements (settleStep st)). js_le (Num eps) (s_amount s)"
proof (cases "running st")
  case True
  then obtain c cr d dr where "creditors st = c # cr" "debtors st = d # dr"
    by (auto simp: running_def neq_Nil_conv)
  with assms show ?thesis
    by (auto simp: settleStep_running round2_ge_eps)
next
  case False
  with assms show ?thesis by (simp add: settleStep_idle)
qed

section \<open>Classification and sorting\<close>

lemma set_insert_desc: "set (insert_desc x ys) = insert x (set ys)"
  by (induction ys) auto

lemma set_sort_desc: "set (sort_desc xs) = set xs"
  by (induction xs) (simp_all add: set_insert_desc)

lemma length_insert_desc: "length (insert_desc x ys) = Suc (length ys)"
  by (induction ys) auto

lemma length_sort_desc: "length (sort_desc xs) = length xs"
  by (induction xs) (simp_all add: length_insert_desc)

lemma classify_creditors:
  "set (fst (foldl classify (cs, ds) b)) =
     set cs \<union> {\<lparr>entry_id = k, entry_amount = v\<rparr> | k v. (k, v) \<in> set b \<and> js_gt v (Num eps)}"
proof (induction b rule: rev_induct)
  case Nil
  then show ?case by simp
next
  case (snoc kv b)
  obtain k v where kv: "kv = (k, v)" by (cases kv)
  show ?case
    using snoc by (auto simp: kv classify_def Let_def)
qed

lemma gt_lt_exclusive: "js_gt v (Num eps) \<Longrightarrow> js_lt v (Num (- eps)) \<Longrightarrow> False"
  by (cases v) (auto simp: js_gt_def eps_def)

lemma classify_debtors:
  "set (snd (foldl classify (cs, ds) b)) =
     set ds \<union> {\<lparr>entry_id = k, entry_amount = js_abs v\<rparr> | k v. (k, v) \<in> set b \<and> js_lt v (Num (- eps))}"
proof (induction b rule: rev_induct)
  case Nil
  then show ?case by simp
next
  case (snoc kv b)
  obtain k v where kv: "kv = (k, v)" by (cases kv)
  show ?case
    using snoc gt_lt_exclusive [of v] by (auto simp: kv classify_def Let_def)
qed

lemma initState_creditors:
  "set (creditors (initState b)) =
     {\<lparr>entry_id = k, entry_amount = v\<rparr> | k v. (k, v) \<in> set b \<and> js_gt v (Num eps)}"
  by (simp add: initState_def Let_def set_sort_desc classify_creditors)

lemma initState_debtors:
  "set (debtors (initState b)) =
     {\<lparr>entry_id = k, entry_amount = js_abs v\<rparr> | k v. (k, v) \<in> set b \<and> js_lt v (Num (- eps))}"
  by (simp add: initState_def Let_def set_sort_desc classify_debtors)

lemma settleStep_parties:
  assumes "parties_ok C D st"
  shows "parties_ok C D (settleStep st)"
proof (cases "running st")
  case True
  then obtain c cr d dr where "creditors st = c # cr" "debtors st = d # dr"
    by (auto simp: running_def neq_Nil_conv)
  with assms show ?thesis
    by (auto simp: settleStep_running parties_ok_def)
next
  case False
  with assms show ?thesis by (simp add: settleStep_idle)
qed

lemma key_value_unique:
  "distinct (map fst b) \<Longrightarrow> (k, v) \<in> set b \<Longrightarrow> (k, w) \<in> set b \<Longrightarrow> v = w"
  by (meson eq_key_imp_eq_value)

section \<open>Finite amounts\<close>

lemma is_fin_conv: "is_fin v \<longleftrightarrow> (\<exists>r. v = Num r)"
  by (cases v) auto

lemma settleStep_fin_shrinks:
  assumes "fin_state st" and "running st"
  shows "fin_state (settleStep st)
    \<and> (creditors (settleStep st) = tl (creditors st) \<or> debtors (settleStep st) = tl (debtors st))
    \<and> length (creditors (settleStep st)) \<le> length (creditors st)
    \<and> length (debtors (settleStep st)) \<le> length (debtors st)"
proof -
  from assms(2) obtain c cr d dr where cd: "creditors st = c # cr" "debtors st = d # dr"
    by (auto simp: running_def neq_Nil_conv)
  with assms(1) obtain x y where xy: "entry_amount c = Num x" "entry_amount d = Num y"
    by (auto simp: fin_state_def fin_entries_def is_fin_conv)
  from assms(1) cd have rest: "fin_entries cr" "fin_entries dr"
    by (auto simp: fin_state_def fin_entries_def)
  show ?thesis
  proof (cases "y < x")
    case True
    with cd xy rest show ?thesis
      by (auto simp: settleStep_running js_sub_def eps_def fin_state_def fin_entries_def)
  next
    case False
    with cd xy rest show ?thesis
      by (auto simp: settleStep_running js_sub_def eps_def fin_state_def fin_entries_def)
  qed
qed

lemma settleStep_fin_removes:
  assumes "fin_state st" and "running st"
  shows "(creditor_settled st \<and> creditors (settleStep st) = tl (creditors st))
    \<or> (debtor_settled st \<and> debtors (settleStep st) = tl (debtors st))"
proof -
  from assms(2) obtain c cr d dr where cd: "creditors st = c # cr" "debtors st = d # dr"
    by (auto simp: running_def neq_Nil_conv)
  with assms(1) obtain x y where xy: "entry_amount c = Num x" "entry_amount d = Num y"
    by (auto simp: fin_state_def fin_entries_def is_fin_conv)
  show ?thesis
  proof (cases "y < x")
    case True
    with cd xy have "debtor_settled st \<and> debtors (settleStep st) = tl (debtors st)"
      by (simp add: settleStep_running debtor_settled_def payment_of_def js_sub_def eps_def)
    then show ?thesis ..
  next
    case False
    with cd xy have "creditor_settled st \<and> creditors (settleStep st) = tl (creditors st)"
      by (simp add: settleStep_running creditor_settled_def payment_of_def js_sub_def eps_def)
    then show ?thesis ..
  qed
qed

lemma fin_state_halts:
  "fin_state st \<Longrightarrow> \<exists>n. \<not> running ((settleStep ^^ n) st)"
proof (induction "length (creditors st) + length (debtors st)" arbitrary: st rule: less_induct)
  case less
  show ?case
  proof (cases "running st")
    case True
    note step = settleStep_fin_shrinks [OF less.prems True]
    from True have "creditors st \<noteq> []" "debtors st \<noteq> []" by (simp_all add: running_def)
    with step have "length (creditors (settleStep st)) + length (debtors (settleStep st))
        < length (creditors st) + length (debtors st)"
      by (cases "creditors st"; cases "debtors st") auto
    from less.hyps [OF this] step obtain n where "\<not> running ((settleStep ^^ n) (settleStep st))"
      by blast
    then have "\<not> running ((settleStep ^^ Suc n) st)" by (simp add: funpow_swap1)
    then show ?thesis by blast
  next
    case False
    then have "\<not> running ((settleStep ^^ 0) st)" by simp
    then show ?thesis by blast
  qed
qed

lemma initState_fin:
  assumes "no_infinity b"
  shows "fin_state (initState b)"
proof -
  have "is_fin v" if "(k, v) \<in> set b" "js_gt v (Num eps)" for k v
    using that assms by (cases v) (auto simp: no_infinity_def js_gt_def)
  moreover have "is_fin (js_abs v)" if "(k, v) \<in> set b" "js_lt v (Num (- eps))" for k v
    using that assms by (cases v) (auto simp: no_infinity_def)
  ultimately show ?thesis
    by (auto simp: fin_state_def fin_entries_def initState_creditors initState_debtors)
qed

lemma settleStep_fin: "fin_state st \<Longrightarrow> fin_state (settleStep st)"
  by (cases "running st") (simp_all add: settleStep_fin_shrinks settleStep_idle)

section \<open>The sort\<close>

lemma cmp_desc_gt: "js_gt (cmp_desc x y) (Num 0) \<longleftrightarrow> js_lt (entry_amount x) (entry_amount y)"
  by (cases "entry_amount x"; cases "entry_amount y") (simp_all add: cmp_desc_def js_sub_def js_gt_def)

lemma js_lt_trans_neg:
  assumes "x \<noteq> NaN" "y \<noteq> NaN" "z \<noteq> NaN" "\<not> js_lt x y" "\<not> js_lt y z"
  shows "\<not> js_lt x z"
  using assms by (cases x; cases y; cases z) simp_all

lemma js_lt_asym: "js_lt x y \<Longrightarrow> \<not> js_lt y x"
  by (cases x; cases y) simp_all

lemma desc_sorted_insert:
  assumes "desc_sorted ys" and "entry_amount x \<noteq> NaN" and "\<forall>y \<in> set ys. entry_amount y \<noteq> NaN"
  shows "desc_sorted (insert_desc x ys)"
  using assms
proof (induction ys)
  case Nil
  then show ?case by (simp add: desc_sorted_def)
next
  case (Cons y ys)
  show ?case
  proof (cases "js_lt (entry_amount x) (entry_amount y)")
    case True
    from Cons have "desc_sorted (insert_desc x ys)" by (simp add: desc_sorted_def)
    with Cons.prems True show ?thesis
      by (auto simp: desc_sorted_def cmp_desc_gt set_insert_desc js_lt_asym)
  next
    case False
    have "\<not> js_lt (entry_amount x) (entry_amount z)" if "z \<in> set ys" for z
    proof -
      from Cons.prems that have "\<not> js_lt (entry_amount y) (entry_amount z)"
        by (simp add: desc_sorted_def)
      with False Cons.prems that show ?thesis
        using js_lt_trans_neg [of "entry_amount x" "entry_amount y" "entry_amount z"] by auto
    qed
    with Cons.prems False show ?thesis
      by (auto simp: desc_sorted_def cmp_desc_gt)
  qed
qed

lemma desc_sorted_sort:
  "\<forall>x \<in> set xs. entry_amount x \<noteq> NaN \<Longrightarrow> desc_sorted (sort_desc xs)"
proof (induction xs)
  case Nil
  then show ?case by (simp add: desc_sorted_def)
next
  case (Cons x xs)
  then show ?case by (simp add: desc_sorted_insert set_sort_desc)
qed

lemma classified_not_nan:
  "\<forall>x \<in> set (fst (foldl classify ([], []) b)) \<union> set (snd (foldl classify ([], []) b)).
     entry_amount x \<noteq> NaN"
proof -
  have "v \<noteq> NaN" if "js_gt v (Num eps)" for v using that by (cases v) (auto simp: js_gt_def)
  moreover have "js_abs v \<noteq> NaN" if "js_lt v (Num (- eps))" for v using that by (cases v) auto
  ultimately show ?thesis
    by (auto simp: classify_creditors classify_debtors)
qed

lemma initState_sorted:
  "desc_sorted (creditors (initState b)) \<and> desc_sorted (debtors (initState b))"
  using classified_not_nan [of b]
  by (simp add: initState_def Let_def desc_sorted_sort)


section \<open>Properties that are undefined or NaN\<close>

lemma map_of_assign:
  "map_of (assign b k v) k' =
     (if k' = k \<and> \<not> (k = ''__proto__'' \<and> map_of b k = None) then Some v else map_of b k')"
  by (auto simp: assign_def update_conv')

lemma get_num_assign:
  "get_num (assign b k v) k' =
     (if k' = k \<and> \<not> (k = ''__proto__'' \<and> map_of b k = None) then v else get_num b k')"
  by (auto simp: get_num_def map_of_assign)

lemma keys_assign:
  "fst ` set (assign b k v) =
     (if k = ''__proto__'' \<and> map_of b k = None then fst ` set b else insert k (fst ` set b))"
  by (auto simp: assign_def dom_update)

lemma map_of_credit:
  "map_of (credit b k a) k' =
     (if k' = k \<and> \<not> (k = ''__proto__'' \<and> map_of b k = None)
      then Some (js_add (get_num b k) a) else map_of b k')"
  by (auto simp: credit_def map_of_assign)

lemma map_of_debit:
  "map_of (debit s b k) k' =
     (if k' = k \<and> \<not> (k = ''__proto__'' \<and> map_of b k = None)
      then Some (js_sub (get_num b k) s) else map_of b k')"
  by (auto simp: debit_def map_of_assign)

lemma js_sub_NaN_left: "js_sub NaN a = NaN"
  by (simp add: js_sub_def)

lemma nan_or_absent_get: "nan_or_absent b k \<Longrightarrow> get_num b k = NaN"
  by (auto simp: nan_or_absent_def get_num_def)

lemma debit_nan:
  "nan_or_absent b k \<Longrightarrow> k \<noteq> ''__proto__'' \<Longrightarrow>
     map_of (debit s b k') k = (if k' = k then Some NaN else map_of b k)"
  by (simp add: map_of_debit nan_or_absent_get js_sub_NaN_left)

lemma debit_fold_nan:
  "nan_or_absent b k \<Longrightarrow> k \<noteq> ''__proto__'' \<Longrightarrow>
     map_of (foldl (debit s) b ks) k = (if k \<in> set ks then Some NaN else map_of b k)"
proof (induction ks arbitrary: b)
  case Nil
  then show ?case by simp
next
  case (Cons k' ks)
  from Cons.prems have step: "map_of (debit s b k') k = (if k' = k then Some NaN else map_of b k)"
    by (rule debit_nan)
  with Cons.prems have "nan_or_absent (debit s b k') k"
    by (auto simp: nan_or_absent_def)
  from Cons.IH [OF this Cons.prems(2)] step show ?case by auto
qed

lemma credit_nan:
  "nan_or_absent b k \<Longrightarrow> k \<noteq> ''__proto__'' \<Longrightarrow>
     map_of (credit b k' a) k = (if k' = k then Some NaN else map_of b k)"
  by (simp add: map_of_credit nan_or_absent_get)

lemma processExpense_nan:
  assumes "nan_or_absent b k" and "k \<noteq> ''__proto__''"
  shows "map_of (processExpense b e) k = (if touches e k then Some NaN else map_of b k)"
proof -
  from assms have c: "map_of (credit b (paidBy e) (amount e)) k =
      (if paidBy e = k then Some NaN else map_of b k)"
    by (rule credit_nan)
  with assms have "nan_or_absent (credit b (paidBy e) (amount e)) k"
    by (auto simp: nan_or_absent_def)
  from debit_fold_nan [OF this assms(2)] c show ?thesis
    by (auto simp: processExpense_def Let_def touches_def)
qed

lemma processExpense_fold_nan:
  assumes "nan_or_absent b k" and "k \<noteq> ''__proto__''"
  shows "map_of (foldl processExpense b es) k =
     (if \<exists>e \<in> set es. touches e k then Some NaN else map_of b k)"
  using assms(1)
proof (induction es arbitrary: b)
  case Nil
  then show ?case by simp
next
  case (Cons e es)
  note step = processExpense_nan [OF Cons.prems assms(2), of e]
  with Cons.prems have "nan_or_absent (processExpense b e) k"
    by (auto simp: nan_or_absent_def)
  from Cons.IH [OF this] step show ?case by auto
qed

text \<open>No property \<^verbatim>\<open>__proto__\<close> is ever made.\<close>

lemma debit_fold_proto:
  "map_of b ''__proto__'' = None \<Longrightarrow> map_of (foldl (debit s) b ks) ''__proto__'' = None"
  by (induction ks arbitrary: b) (simp_all add: map_of_debit)

lemma processExpense_proto:
  "map_of b ''__proto__'' = None \<Longrightarrow> map_of (processExpense b e) ''__proto__'' = None"
  by (simp add: processExpense_def Let_def debit_fold_proto map_of_credit)

lemma processExpense_fold_proto:
  "map_of b ''__proto__'' = None \<Longrightarrow> map_of (foldl processExpense b es) ''__proto__'' = None"
  by (induction es arbitrary: b) (simp_all add: processExpense_proto)

lemma initBalance_fold_proto:
  "map_of b ''__proto__'' = None \<Longrightarrow> map_of (foldl initBalance b ps) ''__proto__'' = None"
  by (induction ps arbitrary: b) (simp_all add: initBalance_def map_of_assign)

lemma initBalance_fold_map_of:
  "map_of (foldl initBalance b ps) k =
     (if k \<in> person_id ` set ps \<and> \<not> (k = ''__proto__'' \<and> map_of b k = None)
      then Some (Num 0) else map_of b k)"
proof (induction ps arbitrary: b)
  case Nil
  then show ?case by simp
next
  case (Cons p ps)
  have step: "map_of (initBalance b p) k =
      (if k = person_id p \<and> \<not> (k = ''__proto__'' \<and> map_of b k = None)
       then Some (Num 0) else map_of b k)"
    by (auto simp: initBalance_def map_of_assign)
  have "map_of (foldl initBalance (initBalance b p) ps) k =
     (if k \<in> person_id ` set ps \<and> \<not> (k = ''__proto__'' \<and> map_of (initBalance b p) k = None)
      then Some (Num 0) else map_of (initBalance b p) k)"
    by (rule Cons.IH)
  then have "map_of (foldl initBalance b (p # ps)) k =
     (if k \<in> person_id ` set ps \<and> \<not> (k = ''__proto__'' \<and> map_of (initBalance b p) k = None)
      then Some (Num 0) else map_of (initBalance b p) k)"
    by simp
  also have "\<dots> = (if k \<in> person_id ` set (p # ps) \<and> \<not> (k = ''__proto__'' \<and> map_of b k = None)
      then Some (Num 0) else map_of b k)"
    unfolding step by (cases "k = person_id p"; cases "k = ''__proto__''"; cases "map_of b k = None"; simp)
  finally show ?case .
qed

lemma init_absent:
  assumes "k \<notin> person_ids t"
  shows "nan_or_absent (foldl initBalance [] (persons t)) k"
  using assms by (simp add: initBalance_fold_map_of nan_or_absent_def person_ids_def)

lemma map_of_roundAll: "map_of (roundAll b) k = map_option round2 (map_of b k)"
  by (simp add: roundAll_def map_of_map)

lemma round2_NaN: "round2 NaN = NaN"
  by (simp add: round2_def)

section \<open>The balance under one identifier\<close>








section \<open>The store and the loop state it holds\<close>

lemma prefix_update_beyond: "prefix xs ys \<Longrightarrow> length xs \<le> i \<Longrightarrow> prefix xs (ys[i := v])"
  by (auto simp: prefix_def list_update_append)

lemma prefix_snoc: "prefix xs ys \<Longrightarrow> prefix xs (ys @ zs)"
  by (auto simp: prefix_def)

lemma map_nth_update_other: "c \<notin> set es \<Longrightarrow> map (\<lambda>e. xs[c := v] ! e) es = map (\<lambda>e. xs ! e) es"
  by (induction es) auto

lemma map_nth_snoc: "\<forall>e \<in> set es. e < length xs \<Longrightarrow> map (\<lambda>e. (xs @ ys) ! e) es = map (\<lambda>e. xs ! e) es"
  by (induction es) (auto simp: nth_append)

lemma running_store_abs:
  "running_store cr dr h = running (loop_state_of sr cr dr h)"
  by (simp add: running_store_def running_def loop_state_of_def)

lemma settleStep_store_sim:
  assumes ok: "loop_refs_ok h0 sr cr dr h" and run: "running_store cr dr h"
  shows "loop_state_of sr cr dr (settleStep_store sr cr dr h) = settleStep (loop_state_of sr cr dr h)
    \<and> loop_refs_ok h0 sr cr dr (settleStep_store sr cr dr h)"
proof -
  from run obtain c cs d ds where cd: "arrays h ! cr = c # cs" "arrays h ! dr = d # ds"
    by (auto simp: running_store_def neq_Nil_conv)
  from ok cd have neq: "c \<noteq> d" "c \<notin> set cs" "d \<notin> set ds" "c \<notin> set ds" "d \<notin> set cs"
    and inr: "c < length (entry_objects h)" "d < length (entry_objects h)"
    by (auto simp: loop_refs_ok_def)
  show ?thesis
    using ok cd neq inr
    by (auto simp: settleStep_store_def settleStep_def loop_state_of_def Let_def new_settlement_def
        push_def sub_amount_def shift_def transfers_def split_def loop_refs_ok_def extends_def
        map_nth_update_other nth_append prefix_update_beyond prefix_snoc nth_list_update less_SucI)
qed

lemma settleLoop_store_sound:
  assumes "settleLoop_store sr cr dr h = Some h'" and "loop_refs_ok h0 sr cr dr h"
  shows "loop_refs_ok h0 sr cr dr h'
    \<and> settleLoop (loop_state_of sr cr dr h) = Some (transfers h' sr)"
proof -
  have "\<forall>h0. loop_refs_ok h0 sr cr dr h \<longrightarrow> loop_refs_ok h0 sr cr dr h'
    \<and> settleLoop (loop_state_of sr cr dr h) = Some (transfers h' sr)"
  proof (rule settleLoop_store.raw_induct [OF _ assms(1)])
    fix loop :: "ref \<Rightarrow> ref \<Rightarrow> ref \<Rightarrow> store \<Rightarrow> store option" and s c d x y
    assume IH: "\<And>s c d x y. loop s c d x = Some y \<Longrightarrow>
      \<forall>h0. loop_refs_ok h0 s c d x \<longrightarrow> loop_refs_ok h0 s c d y
        \<and> settleLoop (loop_state_of s c d x) = Some (transfers y s)"
    assume eq: "(if running_store c d x then loop s c d (settleStep_store s c d x) else Some x) = Some y"
    show "\<forall>h0. loop_refs_ok h0 s c d x \<longrightarrow> loop_refs_ok h0 s c d y
        \<and> settleLoop (loop_state_of s c d x) = Some (transfers y s)"
    proof (intro allI impI)
      fix h0
      assume ok: "loop_refs_ok h0 s c d x"
      show "loop_refs_ok h0 s c d y \<and> settleLoop (loop_state_of s c d x) = Some (transfers y s)"
      proof (cases "running_store c d x")
        case True
        with eq have "loop s c d (settleStep_store s c d x) = Some y" by simp
        from IH [OF this] settleStep_store_sim [OF ok True]
        have "loop_refs_ok h0 s c d y"
          "settleLoop (settleStep (loop_state_of s c d x)) = Some (transfers y s)" by auto
        moreover from True have "running (loop_state_of s c d x)"
          by (simp add: running_store_abs [of c d x s])
        ultimately show ?thesis by (subst settleLoop.simps) simp
      next
        case False
        with eq have "y = x" by simp
        moreover from False have "\<not> running (loop_state_of s c d x)"
          by (simp add: running_store_abs [of c d x s])
        ultimately show ?thesis using ok
          by (subst settleLoop.simps) (simp add: loop_state_of_def)
      qed
    qed
  qed
  with assms(2) show ?thesis by blast
qed

lemma settleLoop_store_complete:
  assumes "settleLoop st = Some ss"
  shows "st = loop_state_of sr cr dr h \<Longrightarrow> loop_refs_ok h0 sr cr dr h \<Longrightarrow>
    \<exists>h'. settleLoop_store sr cr dr h = Some h'"
proof -
  have "\<forall>h. st = loop_state_of sr cr dr h \<and> loop_refs_ok h0 sr cr dr h \<longrightarrow>
    (\<exists>h'. settleLoop_store sr cr dr h = Some h')"
  proof (rule settleLoop.raw_induct [OF _ assms])
    fix loop :: "loop_state \<Rightarrow> settlement list option" and s r
    assume IH: "\<And>x y. loop x = Some y \<Longrightarrow>
      \<forall>h. x = loop_state_of sr cr dr h \<and> loop_refs_ok h0 sr cr dr h \<longrightarrow>
        (\<exists>h'. settleLoop_store sr cr dr h = Some h')"
    assume eq: "(if running s then loop (settleStep s) else Some (settlements s)) = Some r"
    show "\<forall>h. s = loop_state_of sr cr dr h \<and> loop_refs_ok h0 sr cr dr h \<longrightarrow>
        (\<exists>h'. settleLoop_store sr cr dr h = Some h')"
    proof (intro allI impI)
      fix h
      assume a: "s = loop_state_of sr cr dr h \<and> loop_refs_ok h0 sr cr dr h"
      show "\<exists>h'. settleLoop_store sr cr dr h = Some h'"
      proof (cases "running_store cr dr h")
        case True
        with a have "running s" by (simp add: running_store_abs [of cr dr h sr])
        with eq have "loop (settleStep s) = Some r" by simp
        from IH [OF this] settleStep_store_sim [of h0 sr cr dr h] a True
        have "\<exists>h'. settleLoop_store sr cr dr (settleStep_store sr cr dr h) = Some h'" by auto
        with True show ?thesis by (subst settleLoop_store.simps) simp
      next
        case False
        then show ?thesis by (subst settleLoop_store.simps) simp
      qed
    qed
  qed
  then show "st = loop_state_of sr cr dr h \<Longrightarrow> loop_refs_ok h0 sr cr dr h \<Longrightarrow>
    \<exists>h'. settleLoop_store sr cr dr h = Some h'" by blast
qed

lemma set_insert_ref: "set (insert_ref h x ys) = insert x (set ys)"
  by (induction ys) auto

lemma set_sort_refs: "set (sort_refs h xs) = set xs"
  by (induction xs) (simp_all add: set_insert_ref)

lemma distinct_insert_ref: "distinct ys \<Longrightarrow> x \<notin> set ys \<Longrightarrow> distinct (insert_ref h x ys)"
  by (induction ys) (auto simp: set_insert_ref)

lemma distinct_sort_refs: "distinct xs \<Longrightarrow> distinct (sort_refs h xs)"
  by (induction xs) (simp_all add: distinct_insert_ref set_sort_refs)

lemma map_insert_ref:
  "map (\<lambda>e. entry_objects h ! e) (insert_ref h x ys) =
     insert_desc (entry_objects h ! x) (map (\<lambda>e. entry_objects h ! e) ys)"
  by (induction ys) auto

lemma map_sort_refs:
  "map (\<lambda>e. entry_objects h ! e) (sort_refs h xs) = sort_desc (map (\<lambda>e. entry_objects h ! e) xs)"
  by (induction xs) (simp_all add: map_insert_ref)

lemma sort_array_creditors:
  assumes "loop_refs_ok h0 sr cr dr h"
  shows "loop_refs_ok h0 sr cr dr (sort_array cr h)
    \<and> loop_state_of sr cr dr (sort_array cr h) =
        (loop_state_of sr cr dr h)\<lparr>creditors := sort_desc (creditors (loop_state_of sr cr dr h))\<rparr>"
  using assms
  by (auto simp: sort_array_def loop_refs_ok_def loop_state_of_def extends_def transfers_def
      prefix_update_beyond set_sort_refs distinct_sort_refs map_sort_refs)

lemma sort_array_debtors:
  assumes "loop_refs_ok h0 sr cr dr h"
  shows "loop_refs_ok h0 sr cr dr (sort_array dr h)
    \<and> loop_state_of sr cr dr (sort_array dr h) =
        (loop_state_of sr cr dr h)\<lparr>debtors := sort_desc (debtors (loop_state_of sr cr dr h))\<rparr>"
  using assms
  by (auto simp: sort_array_def loop_refs_ok_def loop_state_of_def extends_def transfers_def
      prefix_update_beyond set_sort_refs distinct_sort_refs map_sort_refs)

lemma classify_store_sim:
  assumes "loop_refs_ok h0 sr cr dr h"
  shows "loop_refs_ok h0 sr cr dr (classify_store wb cr dr h k)
    \<and> number_objects (classify_store wb cr dr h k) = number_objects h
    \<and> transfers (classify_store wb cr dr h k) sr = transfers h sr
    \<and> (creditors (loop_state_of sr cr dr (classify_store wb cr dr h k)),
        debtors (loop_state_of sr cr dr (classify_store wb cr dr h k))) =
       classify (creditors (loop_state_of sr cr dr h), debtors (loop_state_of sr cr dr h))
         (k, get_num (number_objects h ! wb) k)"
  using assms
  by (auto simp: classify_store_def classify_def Let_def new_entry_def push_def split_def
      loop_refs_ok_def loop_state_of_def extends_def transfers_def prefix_update_beyond prefix_snoc
      nth_append map_nth_snoc nth_list_update less_SucI intro: prefix_length_le)

lemma classify_store_fold:
  assumes "loop_refs_ok h0 sr cr dr h"
    and "\<forall>kv \<in> set kvs. get_num (number_objects h ! wb) (fst kv) = snd kv"
  shows "loop_refs_ok h0 sr cr dr (foldl (classify_store wb cr dr) h (map fst kvs))
    \<and> transfers (foldl (classify_store wb cr dr) h (map fst kvs)) sr = transfers h sr
    \<and> (creditors (loop_state_of sr cr dr (foldl (classify_store wb cr dr) h (map fst kvs))),
        debtors (loop_state_of sr cr dr (foldl (classify_store wb cr dr) h (map fst kvs)))) =
       foldl classify (creditors (loop_state_of sr cr dr h), debtors (loop_state_of sr cr dr h)) kvs"
  using assms
proof (induction kvs arbitrary: h)
  case Nil
  then show ?case by simp
next
  case (Cons kv kvs)
  note s = classify_store_sim [OF Cons.prems(1), of wb "fst kv"]
  from s Cons.prems(2) have "\<forall>x \<in> set kvs.
      get_num (number_objects (classify_store wb cr dr h (fst kv)) ! wb) (fst x) = snd x"
    by simp
  from Cons.IH [OF _ this] s Cons.prems(2) show ?case
    by simp
qed

lemma set_name_frame:
  "\<exists>m. set_name pm h r = h\<lparr>string_objects := (string_objects h)[pm := m]\<rparr>"
proof (cases "person_id (person_objects h ! r) = ''__proto__''
    \<and> map_of (string_objects h ! pm) (person_id (person_objects h ! r)) = None")
  case True
  have "h = h\<lparr>string_objects := (string_objects h)[pm := string_objects h ! pm]\<rparr>"
    by simp
  moreover from True have "set_name pm h r = h"
    by (auto simp: set_name_def Let_def)
  ultimately show ?thesis by metis
next
  case False
  then have "set_name pm h r = h\<lparr>string_objects := (string_objects h)[pm :=
      AList.update (person_id (person_objects h ! r)) (person_name (person_objects h ! r))
        (string_objects h ! pm)]\<rparr>"
    by (auto simp: set_name_def Let_def)
  then show ?thesis by blast
qed

lemma set_name_fold_frame:
  "\<exists>m. foldl (set_name pm) h rs = h\<lparr>string_objects := (string_objects h)[pm := m]\<rparr>"
proof (induction rs arbitrary: h)
  case Nil
  have "h = h\<lparr>string_objects := (string_objects h)[pm := string_objects h ! pm]\<rparr>"
    by simp
  then show ?case by (metis foldl_Nil)
next
  case (Cons r rs)
  from set_name_frame obtain m where m: "set_name pm h r = h\<lparr>string_objects := (string_objects h)[pm := m]\<rparr>"
    by blast
  from Cons.IH [of "set_name pm h r"] obtain m' where
    "foldl (set_name pm) (set_name pm h r) rs =
       (set_name pm h r)\<lparr>string_objects := (string_objects (set_name pm h r))[pm := m']\<rparr>"
    by blast
  then have "foldl (set_name pm) h (r # rs) = h\<lparr>string_objects := (string_objects h)[pm := m']\<rparr>"
    by (simp add: m)
  then show ?case by blast
qed

lemma distinct_get_num:
  "distinct (map fst b) \<Longrightarrow> \<forall>kv \<in> set b. get_num b (fst kv) = snd kv"
  by (auto simp: get_num_def)

lemma prefix_nth: "prefix xs ys \<Longrightarrow> i < length xs \<Longrightarrow> ys ! i = xs ! i"
  by (auto simp: prefix_def nth_append)

lemma init_store:
  assumes "valid_args h b p"
  shows "\<exists>h9. resolveSettlements_store h b p =
        map_option (\<lambda>h'. (h', length (arrays h)))
          (settleLoop_store (length (arrays h)) (Suc (length (arrays h)))
             (Suc (Suc (length (arrays h)))) h9)
      \<and> loop_refs_ok h (length (arrays h)) (Suc (length (arrays h))) (Suc (Suc (length (arrays h)))) h9
      \<and> loop_state_of (length (arrays h)) (Suc (length (arrays h))) (Suc (Suc (length (arrays h)))) h9
          = initState (number_objects h ! b)"
proof -
  let ?sr = "length (arrays h)"
  let ?cr = "Suc ?sr"
  let ?dr = "Suc (Suc ?sr)"
  let ?pm = "length (string_objects h)"
  let ?wb = "length (number_objects h)"
  let ?h2 = "h\<lparr>arrays := arrays h @ [[]], string_objects := string_objects h @ [[]]\<rparr>"
  from assms have b: "b < length (number_objects h)" and p: "p < length (arrays h)"
    and keys: "distinct (map fst (number_objects h ! b))"
    by (simp_all add: valid_args_def)
  from set_name_fold_frame [of ?pm ?h2 "arrays ?h2 ! p"] obtain m where
    h3: "foldl (set_name ?pm) ?h2 (arrays ?h2 ! p) = ?h2\<lparr>string_objects := (string_objects ?h2)[?pm := m]\<rparr>"
    by blast
  let ?h3 = "?h2\<lparr>string_objects := (string_objects ?h2)[?pm := m]\<rparr>"
  let ?h6 = "?h3\<lparr>number_objects := number_objects ?h3 @ [number_objects ?h3 ! b],
                 arrays := arrays ?h3 @ [[], []]\<rparr>"
  let ?h7 = "foldl (classify_store ?wb ?cr ?dr) ?h6 (map fst (number_objects ?h6 ! ?wb))"
  let ?h9 = "sort_array ?dr (sort_array ?cr ?h7)"
  have run: "resolveSettlements_store h b p =
        map_option (\<lambda>h'. (h', ?sr)) (settleLoop_store ?sr ?cr ?dr ?h9)"
    using h3
    by (simp add: resolveSettlements_store_def new_array_def new_string_object_def
        copy_number_object_def Let_def)
  have wb: "number_objects ?h6 ! ?wb = number_objects h ! b"
    by simp
  have ok6: "loop_refs_ok h ?sr ?cr ?dr ?h6"
    by (simp add: loop_refs_ok_def extends_def nth_append)
  have st6: "loop_state_of ?sr ?cr ?dr ?h6 = \<lparr>creditors = [], debtors = [], settlements = []\<rparr>"
    by (simp add: loop_state_of_def transfers_def nth_append)
  from keys have "\<forall>kv \<in> set (number_objects h ! b). get_num (number_objects ?h6 ! ?wb) (fst kv) = snd kv"
    unfolding wb by (rule distinct_get_num)
  from classify_store_fold [OF ok6 this]
  have ok7: "loop_refs_ok h ?sr ?cr ?dr ?h7"
    and tr7: "transfers ?h7 ?sr = []"
    and cd7: "(creditors (loop_state_of ?sr ?cr ?dr ?h7), debtors (loop_state_of ?sr ?cr ?dr ?h7)) =
       foldl classify ([], []) (number_objects h ! b)"
    unfolding wb using st6 by (simp_all add: loop_state_of_def transfers_def nth_append)
  note s8 = sort_array_creditors [OF ok7]
  from s8 have ok8: "loop_refs_ok h ?sr ?cr ?dr (sort_array ?cr ?h7)" by blast
  note s9 = sort_array_debtors [OF ok8]
  from s9 have ok9: "loop_refs_ok h ?sr ?cr ?dr ?h9" by blast
  have "loop_state_of ?sr ?cr ?dr ?h9 = initState (number_objects h ! b)"
  proof -
    from s8 s9 have "loop_state_of ?sr ?cr ?dr ?h9 =
        (loop_state_of ?sr ?cr ?dr ?h7)
          \<lparr>creditors := sort_desc (creditors (loop_state_of ?sr ?cr ?dr ?h7)),
           debtors := sort_desc (debtors (loop_state_of ?sr ?cr ?dr ?h7))\<rparr>"
      by simp
    moreover from tr7 have "settlements (loop_state_of ?sr ?cr ?dr ?h7) = []"
      by (simp add: loop_state_of_def)
    moreover from cd7 have "creditors (loop_state_of ?sr ?cr ?dr ?h7) = fst (foldl classify ([], []) (number_objects h ! b))"
      "debtors (loop_state_of ?sr ?cr ?dr ?h7) = snd (foldl classify ([], []) (number_objects h ! b))"
      by (metis fst_conv, metis snd_conv)
    ultimately show ?thesis
      by (simp add: initState_def Let_def loop_state_of_def)
  qed
  with run ok9 show ?thesis by blast
qed

lemma extends_valid_args:
  assumes "extends h h'" and "valid_args h b p"
  shows "valid_args h' b p \<and> number_objects h' ! b = number_objects h ! b
    \<and> persons_at h' p = persons_at h p"
proof -
  from assms have b: "number_objects h' ! b = number_objects h ! b"
    and a: "arrays h' ! p = arrays h ! p"
    by (simp_all add: extends_def valid_args_def prefix_nth)
  from assms have po: "\<forall>r \<in> set (arrays h ! p). person_objects h' ! r = person_objects h ! r"
    by (simp add: extends_def valid_args_def prefix_nth)
  from assms have len: "length (number_objects h) \<le> length (number_objects h')"
    "length (arrays h) \<le> length (arrays h')" "length (person_objects h) \<le> length (person_objects h')"
    by (simp_all add: extends_def prefix_length_le)
  from assms(2) len b a have "valid_args h' b p"
    by (auto simp: valid_args_def)
  moreover from po a have "persons_at h' p = persons_at h p"
    by (simp add: persons_at_def)
  ultimately show ?thesis using b by blast
qed


lemmas resolve_eval =
  resolveSettlements_def initState_def classify_def js_gt_def eps_def cmp_desc_def
  js_sub_def settleLoop.simps running_def settleStep_def round2_def Let_def


section \<open>Claims about resolveSettlements\<close>

subsection \<open>C4: the amounts of the settlements\<close>

text \<open>
  C4, as the claim states it, fails: no emitted settlement would have an amount
  \<open>\<le> 0.01\<close>. The guard of the source is on the payment before rounding
  (\<^verbatim>\<open>payment > 0.01\<close>), and a payment of 0.012 is rounded to the amount 0.01.
  Counterexample: the balances \<^verbatim>\<open>{a: 0.012, b: -0.012}\<close> give the one settlement
  \<^verbatim>\<open>{from: b, to: a, amount: 0.01}\<close>, whose amount is \<open>\<le> 0.01\<close>.
\<close>

theorem settlement_amount_equal_eps:
  "resolveSettlements [(''a'', Num (12 / 1000)), (''b'', Num (- (12 / 1000)))] [] =
     Some [\<lparr>s_from = ''b'', s_to = ''a'', s_amount = Num (1 / 100)\<rparr>]
   \<and> js_le (Num (1 / 100)) (Num eps)"
  by (simp add: resolve_eval)

text \<open>
  C4 (amended): for every balances mapping and persons list, every settlement in the list
  returned by resolveSettlements has an amount of at least 0.01 (so none is below the
  threshold, and none is NaN); the amount 0.01 itself occurs.
\<close>

theorem settlement_amount_at_least_eps:
  assumes "resolveSettlements b ps = Some ss" and "s \<in> set ss"
  shows "js_le (Num eps) (s_amount s)"
proof -
  from assms(1) have "settleLoop (initState b) = Some ss"
    by (simp add: resolveSettlements_def)
  then obtain n where n: "ss = settlements ((settleStep ^^ n) (initState b))"
    using settleLoop_iterates by blast
  have "\<forall>s \<in> set (settlements ((settleStep ^^ n) (initState b))). js_le (Num eps) (s_amount s)"
    by (rule funpow_invariant) (simp_all add: initState_settlements settleStep_amounts)
  with n assms(2) show ?thesis by blast
qed

text \<open>C4, witness: the balances \<^verbatim>\<open>{a: 10, c: -7}\<close> give the settlement of 7 from c to a.\<close>

theorem settlement_amount_at_least_eps_witness:
  "resolveSettlements [(''a'', Num 10), (''c'', Num (- 7))] [] =
     Some [\<lparr>s_from = ''c'', s_to = ''a'', s_amount = Num 7\<rparr>]
   \<and> js_le (Num eps) (s_amount \<lparr>s_from = ''c'', s_to = ''a'', s_amount = Num 7\<rparr>)"
proof -
  have run: "resolveSettlements [(''a'', Num 10), (''c'', Num (- 7))] [] =
     Some [\<lparr>s_from = ''c'', s_to = ''a'', s_amount = Num 7\<rparr>]"
    by (simp add: resolve_eval)
  have mem: "\<lparr>s_from = ''c'', s_to = ''a'', s_amount = Num 7\<rparr>
      \<in> set [\<lparr>s_from = ''c'', s_to = ''a'', s_amount = Num 7\<rparr>]"
    by simp
  show ?thesis
    by (intro conjI run settlement_amount_at_least_eps [OF run mem])
qed


subsection \<open>C7: classification, sorting and pairing\<close>

text \<open>
  C7, as the claim states it, fails in its last part: every iteration would pair the
  current largest creditor with the current largest debtor. The lists are sorted once,
  before the loop, and an iteration takes the entries at index 0; a creditor that was
  paid in part stays at index 0 with what remains. Counterexample: the balances
  \<^verbatim>\<open>{a: 10, b: 8, c: -7, d: -6, e: -5}\<close>. After the first iteration (c pays a 7) the
  creditors are a with 3 and b with 8, and the second iteration pairs the debtor d with
  a, not with the largest creditor b: its settlement is 3 from d to a.
\<close>

theorem head_creditor_not_largest:
  "creditors (settleStep (initState
      [(''a'', Num 10), (''b'', Num 8), (''c'', Num (- 7)), (''d'', Num (- 6)), (''e'', Num (- 5))])) =
     [\<lparr>entry_id = ''a'', entry_amount = Num 3\<rparr>, \<lparr>entry_id = ''b'', entry_amount = Num 8\<rparr>]
   \<and> js_lt (Num 3) (Num 8)
   \<and> settlements (settleStep (settleStep (initState
      [(''a'', Num 10), (''b'', Num 8), (''c'', Num (- 7)), (''d'', Num (- 6)), (''e'', Num (- 5))]))) =
     [\<lparr>s_from = ''c'', s_to = ''a'', s_amount = Num 7\<rparr>,
      \<lparr>s_from = ''d'', s_to = ''a'', s_amount = Num 3\<rparr>]"
  by (simp add: resolve_eval)

text \<open>
  C7 (amended): resolveSettlements classifies a person as creditor exactly when their
  balance is \<open>> 0.01\<close> and as debtor exactly when their balance is \<open>< -0.01\<close> (a debtor's
  amount is the absolute value), sorts both working lists descending by amount once,
  before the loop, and in every loop iteration pairs the creditor and the debtor at index
  0 of their lists with \<open>payment = min(creditor.amount, debtor.amount)\<close>, decrementing both
  by that payment: a settlement from the debtor to the creditor is recorded when the
  payment is \<open>> 0.01\<close>, and a party stays at the front of its list unless its remaining
  amount is \<open>< 0.01\<close>.
\<close>

theorem classification_sorting_pairing:
  "set (creditors (initState b)) =
      {\<lparr>entry_id = k, entry_amount = v\<rparr> | k v. (k, v) \<in> set b \<and> js_gt v (Num eps)}
   \<and> set (debtors (initState b)) =
      {\<lparr>entry_id = k, entry_amount = js_abs v\<rparr> | k v. (k, v) \<in> set b \<and> js_lt v (Num (- eps))}
   \<and> desc_sorted (creditors (initState b)) \<and> desc_sorted (debtors (initState b))
   \<and> (\<forall>st c cr d dr. creditors st = c # cr \<and> debtors st = d # dr \<longrightarrow>
        (let payment = js_min (entry_amount c) (entry_amount d) in
           settlements (settleStep st) =
             (if js_gt payment (Num eps)
              then settlements st @
                   [\<lparr>s_from = entry_id d, s_to = entry_id c, s_amount = round2 payment\<rparr>]
              else settlements st)
         \<and> creditors (settleStep st) =
             (if js_lt (js_sub (entry_amount c) payment) (Num eps) then cr
              else c\<lparr>entry_amount := js_sub (entry_amount c) payment\<rparr> # cr)
         \<and> debtors (settleStep st) =
             (if js_lt (js_sub (entry_amount d) payment) (Num eps) then dr
              else d\<lparr>entry_amount := js_sub (entry_amount d) payment\<rparr> # dr)))"
  by (simp add: initState_creditors initState_debtors initState_sorted settleStep_running Let_def)

text \<open>C7, witness: the balances \<^verbatim>\<open>{a: 10, c: -7}\<close>: one creditor, one debtor, and the first
  iteration records the settlement of 7 from c to a.\<close>

theorem classification_sorting_pairing_witness:
  "desc_sorted (creditors (initState [(''a'', Num 10), (''c'', Num (- 7))]))
   \<and> creditors (initState [(''a'', Num 10), (''c'', Num (- 7))]) = [\<lparr>entry_id = ''a'', entry_amount = Num 10\<rparr>]
   \<and> debtors (initState [(''a'', Num 10), (''c'', Num (- 7))]) = [\<lparr>entry_id = ''c'', entry_amount = Num 7\<rparr>]
   \<and> settlements (settleStep (initState [(''a'', Num 10), (''c'', Num (- 7))])) =
       [\<lparr>s_from = ''c'', s_to = ''a'', s_amount = Num 7\<rparr>]"
proof -
  let ?b = "[(''a'', Num 10), (''c'', Num (- 7))]"
  let ?c = "\<lparr>entry_id = ''a'', entry_amount = Num 10\<rparr>"
  let ?d = "\<lparr>entry_id = ''c'', entry_amount = Num 7\<rparr>"
  have cs: "creditors (initState ?b) = [?c]"
    by (simp add: resolve_eval)
  have ds: "debtors (initState ?b) = [?d]"
    by (simp add: resolve_eval)
  have ss: "settlements (initState ?b) = []"
    by (simp add: initState_def Let_def)
  note all = classification_sorting_pairing [of ?b]
  from all have sorted: "desc_sorted (creditors (initState ?b))" by blast
  from all have "creditors (initState ?b) = [?c] \<and> debtors (initState ?b) = [?d] \<longrightarrow>
        (let payment = js_min (entry_amount ?c) (entry_amount ?d) in
           settlements (settleStep (initState ?b)) =
             (if js_gt payment (Num eps)
              then settlements (initState ?b) @
                   [\<lparr>s_from = entry_id ?d, s_to = entry_id ?c, s_amount = round2 payment\<rparr>]
              else settlements (initState ?b))
         \<and> creditors (settleStep (initState ?b)) =
             (if js_lt (js_sub (entry_amount ?c) payment) (Num eps) then []
              else ?c\<lparr>entry_amount := js_sub (entry_amount ?c) payment\<rparr> # [])
         \<and> debtors (settleStep (initState ?b)) =
             (if js_lt (js_sub (entry_amount ?d) payment) (Num eps) then []
              else ?d\<lparr>entry_amount := js_sub (entry_amount ?d) payment\<rparr> # []))"
    by blast
  with cs ds ss have "settlements (settleStep (initState ?b)) =
       [\<lparr>s_from = ''c'', s_to = ''a'', s_amount = Num 7\<rparr>]"
    by (simp add: Let_def js_gt_def eps_def round2_def)
  with sorted cs ds show ?thesis by blast
qed


subsection \<open>C8: termination of the matching loop\<close>

text \<open>
  C8, as the claim states it, fails: the loop would terminate for every input balances
  mapping. With the balances \<^verbatim>\<open>{a: Infinity, b: -Infinity}\<close> the first iteration pays
  \<^verbatim>\<open>Infinity\<close> and leaves both amounts at \<^verbatim>\<open>Infinity - Infinity = NaN\<close>; \<^verbatim>\<open>NaN < 0.01\<close> is
  false, neither party is removed, and every later iteration finds the same two
  entries. The loop never ends: the model returns \<open>None\<close>.
\<close>

theorem resolveSettlements_diverges_infinite:
  "resolveSettlements [(''a'', PosInf), (''b'', NegInf)] [] = None"
proof (rule ccontr)
  let ?st0 = "initState [(''a'', PosInf), (''b'', NegInf)]"
  let ?st1 = "\<lparr>creditors = [\<lparr>entry_id = ''a'', entry_amount = NaN\<rparr>],
               debtors = [\<lparr>entry_id = ''b'', entry_amount = NaN\<rparr>],
               settlements = [\<lparr>s_from = ''b'', s_to = ''a'', s_amount = PosInf\<rparr>]\<rparr>"
  assume "resolveSettlements [(''a'', PosInf), (''b'', NegInf)] [] \<noteq> None"
  then obtain ss where "settleLoop ?st0 = Some ss"
    by (auto simp: resolveSettlements_def)
  then obtain n where n: "\<not> running ((settleStep ^^ n) ?st0)"
    using settleLoop_iterates by blast
  have st0: "running ?st0"
    by (simp add: initState_def classify_def js_gt_def eps_def running_def)
  have step: "settleStep ?st0 = ?st1"
    by (simp add: initState_def classify_def js_gt_def eps_def settleStep_def js_sub_def round2_def)
  have fixed: "settleStep ?st1 = ?st1"
    by (simp add: settleStep_def js_sub_def js_gt_def)
  have "(settleStep ^^ k) ?st1 = ?st1" for k
    by (induction k) (simp_all add: fixed)
  then have later: "running ((settleStep ^^ k) ?st1)" for k
    by (simp add: running_def)
  have "running ((settleStep ^^ Suc k) ?st0)" for k
  proof -
    have "(settleStep ^^ Suc k) ?st0 = (settleStep ^^ k) (settleStep ?st0)"
      by (simp only: funpow_Suc_right o_apply)
    with later [of k] show ?thesis by (simp only: step)
  qed
  with st0 have "running ((settleStep ^^ k) ?st0)" for k
    by (cases k) (simp_all del: funpow.simps)
  with n show False by blast
qed

text \<open>
  C8 (amended): for every balances mapping that holds no infinite balance, and every
  persons list, the matching loop of resolveSettlements terminates and the function
  returns; in each iteration the remaining amount of at least one of the two parties
  drops below 0.01 and that party is removed from the front of its list.
\<close>

theorem resolveSettlements_terminates_finite:
  assumes "no_infinity b"
  shows "(\<exists>ss. resolveSettlements b ps = Some ss) \<and>
    (\<forall>n. running ((settleStep ^^ n) (initState b)) \<longrightarrow>
       creditor_settled ((settleStep ^^ n) (initState b))
         \<and> creditors ((settleStep ^^ Suc n) (initState b)) = tl (creditors ((settleStep ^^ n) (initState b)))
     \<or> debtor_settled ((settleStep ^^ n) (initState b))
         \<and> debtors ((settleStep ^^ Suc n) (initState b)) = tl (debtors ((settleStep ^^ n) (initState b))))"
proof
  from fin_state_halts [OF initState_fin [OF assms]]
  obtain n where "\<not> running ((settleStep ^^ n) (initState b))" by blast
  from settleLoop_returns [OF this] show "\<exists>ss. resolveSettlements b ps = Some ss"
    by (simp add: resolveSettlements_def)
next
  show "\<forall>n. running ((settleStep ^^ n) (initState b)) \<longrightarrow>
       creditor_settled ((settleStep ^^ n) (initState b))
         \<and> creditors ((settleStep ^^ Suc n) (initState b)) = tl (creditors ((settleStep ^^ n) (initState b)))
     \<or> debtor_settled ((settleStep ^^ n) (initState b))
         \<and> debtors ((settleStep ^^ Suc n) (initState b)) = tl (debtors ((settleStep ^^ n) (initState b)))"
  proof (intro allI impI)
    fix n
    assume run: "running ((settleStep ^^ n) (initState b))"
    have "fin_state ((settleStep ^^ n) (initState b))"
      by (rule funpow_invariant) (simp_all add: initState_fin assms settleStep_fin)
    from settleStep_fin_removes [OF this run] show
      "creditor_settled ((settleStep ^^ n) (initState b))
         \<and> creditors ((settleStep ^^ Suc n) (initState b)) = tl (creditors ((settleStep ^^ n) (initState b)))
     \<or> debtor_settled ((settleStep ^^ n) (initState b))
         \<and> debtors ((settleStep ^^ Suc n) (initState b)) = tl (debtors ((settleStep ^^ n) (initState b)))"
      by simp
  qed
qed

text \<open>C8, witness: the balances \<^verbatim>\<open>{a: 10, c: -7}\<close>; the function returns, and the first
  iteration removes the debtor c.\<close>

theorem resolveSettlements_terminates_finite_witness:
  "no_infinity [(''a'', Num 10), (''c'', Num (- 7))]
   \<and> resolveSettlements [(''a'', Num 10), (''c'', Num (- 7))] [] \<noteq> None
   \<and> running (initState [(''a'', Num 10), (''c'', Num (- 7))])
   \<and> debtor_settled (initState [(''a'', Num 10), (''c'', Num (- 7))])
   \<and> debtors (settleStep (initState [(''a'', Num 10), (''c'', Num (- 7))])) =
       tl (debtors (initState [(''a'', Num 10), (''c'', Num (- 7))]))"
proof -
  have fin: "no_infinity [(''a'', Num 10), (''c'', Num (- 7))]"
    by (simp add: no_infinity_def)
  from resolveSettlements_terminates_finite [OF fin, of "[]"]
  have "resolveSettlements [(''a'', Num 10), (''c'', Num (- 7))] [] \<noteq> None"
    by blast
  with fin show ?thesis
    by (simp add: initState_def classify_def js_gt_def eps_def running_def settleStep_def
        js_sub_def debtor_settled_def payment_of_def Let_def)
qed


subsection \<open>C9: the call leaves its arguments as they are\<close>

lemmas store_eval =
  resolveSettlements_store_def new_array_def new_string_object_def set_name_def
  copy_number_object_def classify_store_def new_entry_def push_def sort_array_def
  settleLoop_store.simps running_store_def settleStep_store_def new_settlement_def
  sub_amount_def shift_def get_num_def js_gt_def eps_def cmp_desc_def js_sub_def round2_def
  Let_def mk_person_def

text \<open>
  C9: resolveSettlements is deterministic and does not mutate its balances argument.
  On the store: when a call with valid references returns, every object and every array
  that was in the store before the call is in the store after it, unchanged (the balances
  object, the persons array and the person objects among them: the source writes to the
  objects and arrays it has made itself, \<^verbatim>\<open>personMap\<close>, \<^verbatim>\<open>workingBalances\<close>, the two
  working arrays with their entries, and \<^verbatim>\<open>settlements\<close>); the transfers it returns are
  those that the function of the contents of its arguments gives; and a second call with
  the same references, in the store the first call has left, returns as well, with the
  same multiset of \<^verbatim>\<open>{from, to, amount}\<close> transfers.
\<close>

theorem resolveSettlements_store_pure:
  assumes "valid_args h b p" and "resolveSettlements_store h b p = Some (h1, r1)"
  shows "extends h h1
    \<and> resolveSettlements (number_objects h ! b) (persons_at h p) = Some (transfers h1 r1)
    \<and> (\<exists>h2 r2. resolveSettlements_store h1 b p = Some (h2, r2)
          \<and> mset (transfers h2 r2) = mset (transfers h1 r1))"
proof -
  from init_store [OF assms(1)] obtain h9 where
    run: "resolveSettlements_store h b p =
        map_option (\<lambda>h'. (h', length (arrays h)))
          (settleLoop_store (length (arrays h)) (Suc (length (arrays h)))
             (Suc (Suc (length (arrays h)))) h9)"
    and ok: "loop_refs_ok h (length (arrays h)) (Suc (length (arrays h))) (Suc (Suc (length (arrays h)))) h9"
    and st: "loop_state_of (length (arrays h)) (Suc (length (arrays h))) (Suc (Suc (length (arrays h)))) h9
          = initState (number_objects h ! b)"
    by blast
  from assms(2) have "map_option (\<lambda>h'. (h', length (arrays h)))
          (settleLoop_store (length (arrays h)) (Suc (length (arrays h)))
             (Suc (Suc (length (arrays h)))) h9) = Some (h1, r1)"
    by (simp only: run)
  then have r1: "r1 = length (arrays h)"
    and loop: "settleLoop_store (length (arrays h)) (Suc (length (arrays h)))
             (Suc (Suc (length (arrays h)))) h9 = Some h1"
    by auto
  from settleLoop_store_sound [OF loop ok] st
  have ext: "extends h h1"
    and res: "settleLoop (initState (number_objects h ! b)) = Some (transfers h1 r1)"
    by (simp_all add: loop_refs_ok_def r1)
  note v1 = extends_valid_args [OF ext assms(1)]
  from v1 have valid1: "valid_args h1 b p" and same: "number_objects h1 ! b = number_objects h ! b"
    by blast+
  from init_store [OF valid1] obtain h9' where
    run': "resolveSettlements_store h1 b p =
        map_option (\<lambda>h'. (h', length (arrays h1)))
          (settleLoop_store (length (arrays h1)) (Suc (length (arrays h1)))
             (Suc (Suc (length (arrays h1)))) h9')"
    and ok': "loop_refs_ok h1 (length (arrays h1)) (Suc (length (arrays h1))) (Suc (Suc (length (arrays h1)))) h9'"
    and st': "loop_state_of (length (arrays h1)) (Suc (length (arrays h1))) (Suc (Suc (length (arrays h1)))) h9'
          = initState (number_objects h ! b)"
    unfolding same by blast
  from settleLoop_store_complete [OF res st' [symmetric] ok'] obtain h2 where
    loop': "settleLoop_store (length (arrays h1)) (Suc (length (arrays h1)))
             (Suc (Suc (length (arrays h1)))) h9' = Some h2"
    by blast
  from settleLoop_store_sound [OF loop' ok'] st' res
  have "transfers h2 (length (arrays h1)) = transfers h1 r1"
    by simp
  with run' loop' have "resolveSettlements_store h1 b p = Some (h2, length (arrays h1))
      \<and> mset (transfers h2 (length (arrays h1))) = mset (transfers h1 r1)"
    by simp
  then have "\<exists>h2 r2. resolveSettlements_store h1 b p = Some (h2, r2)
          \<and> mset (transfers h2 r2) = mset (transfers h1 r1)"
    by blast
  with ext res show ?thesis
    by (simp add: resolveSettlements_def)
qed

text \<open>C9, witness: the store with the balances \<^verbatim>\<open>{a: 10, c: -7}\<close> and the persons a and c.
  The call makes \<^verbatim>\<open>settlements\<close> at reference 1, a copy of the balances, and one entry
  for each of a and c; it leaves the entry of a at 3.\<close>

theorem resolveSettlements_store_pure_witness:
  "valid_args example_store 0 0
   \<and> resolveSettlements_store example_store 0 0 =
       Some (\<lparr>number_objects =
                 [[(''a'', Num 10), (''c'', Num (- 7))], [(''a'', Num 10), (''c'', Num (- 7))]],
               person_objects = [mk_person ''a'', mk_person ''c''],
               string_objects = [[(''a'', ''a''), (''c'', ''c'')]],
               entry_objects =
                 [\<lparr>entry_id = ''a'', entry_amount = Num 3\<rparr>,
                  \<lparr>entry_id = ''c'', entry_amount = Num 0\<rparr>],
               settlement_objects = [\<lparr>s_from = ''c'', s_to = ''a'', s_amount = Num 7\<rparr>],
               arrays = [[0, 1], [0], [0], []]\<rparr>, 1)
   \<and> number_objects example_store ! 0 = [(''a'', Num 10), (''c'', Num (- 7))]
   \<and> resolveSettlements [(''a'', Num 10), (''c'', Num (- 7))] (persons_at example_store 0) =
       Some [\<lparr>s_from = ''c'', s_to = ''a'', s_amount = Num 7\<rparr>]"
proof -
  let ?h1 = "\<lparr>number_objects =
                 [[(''a'', Num 10), (''c'', Num (- 7))], [(''a'', Num 10), (''c'', Num (- 7))]],
               person_objects = [mk_person ''a'', mk_person ''c''],
               string_objects = [[(''a'', ''a''), (''c'', ''c'')]],
               entry_objects =
                 [\<lparr>entry_id = ''a'', entry_amount = Num 3\<rparr>,
                  \<lparr>entry_id = ''c'', entry_amount = Num 0\<rparr>],
               settlement_objects = [\<lparr>s_from = ''c'', s_to = ''a'', s_amount = Num 7\<rparr>],
               arrays = [[0, 1], [0], [0], []]\<rparr>"
  have valid: "valid_args example_store 0 0"
    by (simp add: valid_args_def example_store_def)
  have run: "resolveSettlements_store example_store 0 0 = Some (?h1, 1)"
    by (simp add: example_store_def store_eval)
  have obj: "number_objects example_store ! 0 = [(''a'', Num 10), (''c'', Num (- 7))]"
    by (simp add: example_store_def)
  from resolveSettlements_store_pure [OF valid run]
  have "resolveSettlements (number_objects example_store ! 0) (persons_at example_store 0) =
      Some (transfers ?h1 1)"
    by blast
  then have "resolveSettlements [(''a'', Num 10), (''c'', Num (- 7))] (persons_at example_store 0) =
       Some [\<lparr>s_from = ''c'', s_to = ''a'', s_amount = Num 7\<rparr>]"
    by (simp add: obj transfers_def)
  with valid run obj show ?thesis by blast
qed


subsection \<open>C10: nobody pays themself\<close>

text \<open>
  C10: for every balances mapping and persons list, every settlement emitted by
  resolveSettlements has \<open>from \<noteq> to\<close>. The keys of an object are distinct, which is the
  hypothesis on the list of its properties: so an identifier is a creditor or a debtor
  but never both, the settlements go from a debtor to a creditor, and no settlement pays
  a person to themself.
\<close>

theorem settlement_from_neq_to:
  assumes "distinct (map fst b)"
    and "resolveSettlements b ps = Some ss" and "s \<in> set ss"
  shows "s_from s \<noteq> s_to s"
proof -
  define C where "C = {k. \<exists>v. (k, v) \<in> set b \<and> js_gt v (Num eps)}"
  define D where "D = {k. \<exists>v. (k, v) \<in> set b \<and> js_lt v (Num (- eps))}"
  have disj: "C \<inter> D = {}"
  proof -
    have False if "k \<in> C" "k \<in> D" for k
    proof -
      from that obtain v w where "(k, v) \<in> set b" "js_gt v (Num eps)"
        "(k, w) \<in> set b" "js_lt w (Num (- eps))" by (auto simp: C_def D_def)
      with key_value_unique [OF assms(1)] gt_lt_exclusive show False by blast
    qed
    then show ?thesis by blast
  qed
  have init: "parties_ok C D (initState b)"
    by (auto simp: parties_ok_def initState_creditors initState_debtors initState_settlements
        C_def D_def)
  from assms(2) have "settleLoop (initState b) = Some ss"
    by (simp add: resolveSettlements_def)
  then obtain n where n: "ss = settlements ((settleStep ^^ n) (initState b))"
    using settleLoop_iterates by blast
  have "parties_ok C D ((settleStep ^^ n) (initState b))"
    by (rule funpow_invariant) (simp_all add: init settleStep_parties)
  with n assms(3) have "s_from s \<in> D" "s_to s \<in> C" by (auto simp: parties_ok_def)
  with disj show ?thesis by auto
qed

text \<open>C10, witness: the balances \<^verbatim>\<open>{a: 10, c: -7}\<close> and their one settlement, from c to a.\<close>

theorem settlement_from_neq_to_witness:
  "distinct (map fst [(''a'', Num 10), (''c'', Num (- 7))])
   \<and> resolveSettlements [(''a'', Num 10), (''c'', Num (- 7))] [] =
       Some [\<lparr>s_from = ''c'', s_to = ''a'', s_amount = Num 7\<rparr>]
   \<and> s_from \<lparr>s_from = ''c'', s_to = ''a'', s_amount = Num 7\<rparr>
       \<noteq> s_to \<lparr>s_from = ''c'', s_to = ''a'', s_amount = Num 7\<rparr>"
proof -
  have keys: "distinct (map fst [(''a'', Num 10), (''c'', Num (- 7))])"
    by simp
  have run: "resolveSettlements [(''a'', Num 10), (''c'', Num (- 7))] [] =
     Some [\<lparr>s_from = ''c'', s_to = ''a'', s_amount = Num 7\<rparr>]"
    by (simp add: resolve_eval)
  have mem: "\<lparr>s_from = ''c'', s_to = ''a'', s_amount = Num 7\<rparr>
      \<in> set [\<lparr>s_from = ''c'', s_to = ''a'', s_amount = Num 7\<rparr>]"
    by simp
  show ?thesis
    by (intro conjI keys run settlement_from_neq_to [OF keys run mem])
qed


lemmas calc_eval =
  calculateBalances_def rawBalances_def roundAll_def processExpense_def credit_def debit_def
  initBalance_def assign_def get_num_def round2_def js_sub_def Let_def

lemmas valid_eval = valid_trip_def sound_trip_def person_ids_def

lemmas example_defs = mk_person_def mk_expense_def mk_trip_def


section \<open>Claims about calculateBalances\<close>

subsection \<open>C1: the sum of the balances\<close>

text \<open>The trip of the input below is valid: it passes the checks of \<^verbatim>\<open>addExpense\<close>.\<close>

lemma five_person_trip_valid:
  "valid_trip (mk_trip [''A'', ''B'', ''C'', ''D'', ''E'']
      [mk_expense (2 / 100) ''A'' [''A'', ''B'', ''C'', ''D'', ''E'']])"
  by (simp add: valid_eval example_defs)

text \<open>
  C1: for every trip, the sum of the values of the mapping returned by
  calculateBalances(trip) is within \<open>\<epsilon> = 0.01\<close> of 0. The source checks this itself
  (\<^verbatim>\<open>renderExpenseSummary\<close>, lines 820-824, warns that the balance sum is not zero when
  \<^verbatim>\<open>Math.abs(sum) > 0.01\<close>; \<^verbatim>\<open>runSelfTest\<close>, lines 2206-2214), and calculateBalances
  breaks it. Five persons A to E and one expense of 0.02, paid by A and shared by all
  five: the split is 0.004; A stands at 0.016, rounded to 0.02, and the four others at
  -0.004, rounded to 0. The returned balances sum to 0.02, which is not within 0.01 of 0.
\<close>

theorem balances_sum_exceeds_eps:
  "calculateBalances (Some (mk_trip [''A'', ''B'', ''C'', ''D'', ''E'']
      [mk_expense (2 / 100) ''A'' [''A'', ''B'', ''C'', ''D'', ''E'']])) =
     [(''A'', Num (2 / 100)), (''B'', Num 0), (''C'', Num 0), (''D'', Num 0), (''E'', Num 0)]
   \<and> js_sum [(''A'', Num (2 / 100)), (''B'', Num 0), (''C'', Num 0), (''D'', Num 0), (''E'', Num 0)]
      = Num (2 / 100)
   \<and> \<not> within_eps (Num (2 / 100))"
  by (simp add: calc_eval example_defs js_sum_def within_eps_def eps_def)


subsection \<open>C3: an expense with no participants\<close>





subsection \<open>C6: identifiers of no person\<close>

text \<open>
  C6, as the claim states it, fails: the entry under a dangling identifier would hold the
  credited or debited amount. The entry is created, and nothing fails, but
  \<^verbatim>\<open>balances[id]\<close> is \<^verbatim>\<open>undefined\<close> before the first \<^verbatim>\<open>+=\<close> or \<^verbatim>\<open>-=\<close>, and
  \<^verbatim>\<open>undefined + amount\<close> is NaN. Counterexample: persons A and B and one expense of 10
  paid by X for A and B: the entry of X holds NaN, not 10.
\<close>

theorem dangling_payer_entry_nan:
  "calculateBalances (Some (mk_trip [''A'', ''B''] [mk_expense 10 ''X'' [''A'', ''B'']])) =
     [(''A'', Num (- 5)), (''B'', Num (- 5)), (''X'', NaN)]
   \<and> paidBy (mk_expense 10 ''X'' [''A'', ''B'']) = ''X''
   \<and> amount (mk_expense 10 ''X'' [''A'', ''B'']) = Num 10"
  by (simp add: calc_eval example_defs)

text \<open>
  C6 (amended): for every trip with at least one person, containing an expense whose
  paidBy (or a participant) identifier does not reference any person in trip.persons,
  calculateBalances does not fail (the model is a total function with no error value),
  and the returned balances have an entry under that dangling identifier, although it is
  not in the persons list; the entry holds NaN, not the credited or debited amount. The
  one identifier under which no entry is made is \<^verbatim>\<open>__proto__\<close>: the assignments to it
  are ignored.
\<close>

theorem dangling_id_is_nan:
  assumes "persons t \<noteq> []" and "e \<in> set (expenses t)" and "touches e k"
    and "k \<notin> person_ids t"
  shows "map_of (calculateBalances (Some t)) k = (if k = ''__proto__'' then None else Some NaN)"
proof (cases "k = ''__proto__''")
  case True
  have "map_of (rawBalances t) ''__proto__'' = None"
    by (simp add: rawBalances_def processExpense_fold_proto initBalance_fold_proto)
  with assms(1) True show ?thesis
    by (simp add: calculateBalances_def map_of_roundAll)
next
  case False
  from assms(2,3) have "\<exists>e \<in> set (expenses t). touches e k" by blast
  with processExpense_fold_nan [OF init_absent [OF assms(4)] False, of "expenses t"]
  have "map_of (rawBalances t) k = Some NaN"
    by (simp add: rawBalances_def)
  with assms(1) False show ?thesis
    by (simp add: calculateBalances_def map_of_roundAll round2_NaN)
qed

text \<open>C6, witness: the trip of the counterexample and its payer X; and the same expense
  paid by \<^verbatim>\<open>__proto__\<close>.\<close>

theorem dangling_id_is_nan_witness:
  "persons (mk_trip [''A'', ''B''] [mk_expense 10 ''X'' [''A'', ''B'']]) \<noteq> []
   \<and> mk_expense 10 ''X'' [''A'', ''B''] \<in> set (expenses (mk_trip [''A'', ''B''] [mk_expense 10 ''X'' [''A'', ''B'']]))
   \<and> touches (mk_expense 10 ''X'' [''A'', ''B'']) ''X''
   \<and> ''X'' \<notin> person_ids (mk_trip [''A'', ''B''] [mk_expense 10 ''X'' [''A'', ''B'']])
   \<and> map_of (calculateBalances (Some (mk_trip [''A'', ''B''] [mk_expense 10 ''X'' [''A'', ''B'']]))) ''X''
       = Some NaN
   \<and> calculateBalances (Some (mk_trip [''A'', ''B''] [mk_expense 10 ''__proto__'' [''A'', ''B'']])) =
       [(''A'', Num (- 5)), (''B'', Num (- 5))]"
proof -
  let ?e = "mk_expense 10 ''X'' [''A'', ''B'']"
  let ?t = "mk_trip [''A'', ''B''] [?e]"
  have p: "persons ?t \<noteq> []" by (simp add: mk_trip_def)
  have e: "?e \<in> set (expenses ?t)" by (simp add: mk_trip_def)
  have x: "touches ?e ''X''" by (simp add: touches_def mk_expense_def)
  have d: "''X'' \<notin> person_ids ?t" by (simp add: valid_eval example_defs)
  have r: "calculateBalances (Some (mk_trip [''A'', ''B''] [mk_expense 10 ''__proto__'' [''A'', ''B'']])) =
       [(''A'', Num (- 5)), (''B'', Num (- 5))]"
    by (simp add: calc_eval example_defs)
  from dangling_id_is_nan [OF p e x d]
  have "map_of (calculateBalances (Some ?t)) ''X'' = Some NaN" by simp
  with p e x d r show ?thesis by blast
qed

end
